theory Spec2Isabelle
  imports Main
begin

section \<open>Strings as the crawler uses them\<close>

text \<open>
  The crawler works on JavaScript strings with \<^verbatim>\<open>startsWith\<close>, \<^verbatim>\<open>endsWith\<close>,
  \<^verbatim>\<open>toLowerCase\<close> and two anchored \<^verbatim>\<open>replace\<close> calls. Strings are character lists;
  the receiver comes first, as in \<^verbatim>\<open>s.startsWith(p)\<close>.
\<close>

definition startsWith :: "string \<Rightarrow> string \<Rightarrow> bool" where
  "startsWith s p = (take (length p) s = p)"

definition endsWith :: "string \<Rightarrow> string \<Rightarrow> bool" where
  "endsWith s p = (length p \<le> length s \<and> drop (length s - length p) s = p)"

text \<open>\<^verbatim>\<open>s.replace(/^www\./, '')\<close>: a leading \<^verbatim>\<open>www.\<close> is removed, once.\<close>

definition stripWww :: "string \<Rightarrow> string" where
  "stripWww s = (if startsWith s ''www.'' then drop 4 s else s)"

text \<open>\<^verbatim>\<open>s.replace(/\/$/, '')\<close>: one slash at the very end is removed.\<close>

definition stripTrailingSlash :: "string \<Rightarrow> string" where
  "stripTrailingSlash s = (if endsWith s ''/'' then butlast s else s)"

text \<open>
  \<^verbatim>\<open>toLowerCase\<close> on the letters A to Z; a serialised URL path is ASCII, and every other
  character is left as it is.
\<close>

definition lowerChar :: "char \<Rightarrow> char" where
  "lowerChar c =
     (if (65::nat) \<le> of_char c \<and> of_char c \<le> (90::nat) then char_of (of_char c + (32::nat)) else c)"

definition toLowerCase :: "string \<Rightarrow> string" where
  "toLowerCase s = map lowerChar s"

text \<open>\<^verbatim>\<open>Set.add\<close> followed by \<^verbatim>\<open>Array.from\<close>: a set that keeps insertion order.\<close>

definition setAdd :: "string \<Rightarrow> string list \<Rightarrow> string list" where
  "setAdd x acc = (if x \<in> set acc then acc else acc @ [x])"

section \<open>The platform's URL class\<close>

text \<open>
  \<^verbatim>\<open>new URL(input, base)\<close> belongs to the JavaScript runtime, not to the repository.
  The crawler reads four properties of the object. The constructor is a parameter of the
  model: it takes the input and the optional base and returns \<open>None\<close> where the
  constructor throws.
\<close>

record URL =
  href :: string
  origin :: string
  hostname :: string
  pathname :: string

type_synonym url_ctor = "string \<Rightarrow> string option \<Rightarrow> URL option"

text \<open>
  A reference constructor for evaluating examples: the parser of the URL Standard for
  URLs with a special scheme (\<^verbatim>\<open>http\<close>, \<^verbatim>\<open>https\<close>, \<^verbatim>\<open>ws\<close>, \<^verbatim>\<open>wss\<close>, \<^verbatim>\<open>ftp\<close>), for
  URLs with an opaque path (\<^verbatim>\<open>mailto:\<close>, \<^verbatim>\<open>javascript:\<close>, \<^verbatim>\<open>tel:\<close>, \<^verbatim>\<open>data:\<close>) and
  for every kind of relative reference against a base of these: scheme-relative,
  path-absolute, path-relative with dot segments, query-only, fragment-only and empty. Not
  modelled, and answered with \<open>None\<close>: hosts that need IDNA or IPv6 parsing,
  \<^verbatim>\<open>file\<close> and \<^verbatim>\<open>blob\<close> URLs, and non-special URLs with a slash after the colon. Every
  general statement below is about an arbitrary constructor \<open>U\<close>.
\<close>

subsection \<open>Character classes and percent-encoding\<close>

definition isAlpha :: "char \<Rightarrow> bool" where
  "isAlpha c = (let n = (of_char c :: nat) in (65 \<le> n \<and> n \<le> 90) \<or> (97 \<le> n \<and> n \<le> 122))"

definition isDigit :: "char \<Rightarrow> bool" where
  "isDigit c = (let n = (of_char c :: nat) in 48 \<le> n \<and> n \<le> 57)"

definition isHexDigit :: "char \<Rightarrow> bool" where
  "isHexDigit c =
     (let n = (of_char c :: nat) in (48 \<le> n \<and> n \<le> 57) \<or> (65 \<le> n \<and> n \<le> 70) \<or> (97 \<le> n \<and> n \<le> 102))"

definition isSchemeChar :: "char \<Rightarrow> bool" where
  "isSchemeChar c = (isAlpha c \<or> isDigit c \<or> c = CHR ''+'' \<or> c = CHR ''-'' \<or> c = CHR ''.'')"

text \<open>A slash, or a backslash, which a special URL treats as a slash.\<close>

definition isSlash :: "char \<Rightarrow> bool" where
  "isSlash c = (c = CHR ''/'' \<or> c = CHR 0x5C)"

definition isPathEnd :: "char \<Rightarrow> bool" where
  "isPathEnd c = (c = CHR ''?'' \<or> c = CHR ''#'')"

text \<open>
  The percent-encode sets of the URL Standard, on bytes: a string stands for the UTF-8
  bytes of the JavaScript string.
\<close>

definition c0ControlSet :: "char \<Rightarrow> bool" where
  "c0ControlSet c = (let n = (of_char c :: nat) in n \<le> 31 \<or> 126 < n)"

definition fragmentSet :: "char \<Rightarrow> bool" where
  "fragmentSet c = (c0ControlSet c \<or> (of_char c :: nat) \<in> set [0x20, 0x22, 0x3C, 0x3E, 0x60])"

definition querySet :: "char \<Rightarrow> bool" where
  "querySet c = (c0ControlSet c \<or> (of_char c :: nat) \<in> set [0x20, 0x22, 0x23, 0x3C, 0x3E])"

definition specialQuerySet :: "char \<Rightarrow> bool" where
  "specialQuerySet c = (querySet c \<or> (of_char c :: nat) = 0x27)"

definition pathSet :: "char \<Rightarrow> bool" where
  "pathSet c = (querySet c \<or> (of_char c :: nat) \<in> set [0x3F, 0x5E, 0x60, 0x7B, 0x7D])"

definition userinfoSet :: "char \<Rightarrow> bool" where
  "userinfoSet c =
     (pathSet c \<or> (of_char c :: nat) \<in> set [0x2F, 0x3A, 0x3B, 0x3D, 0x40, 0x5B, 0x5C, 0x5D, 0x7C])"

definition hexChar :: "nat \<Rightarrow> char" where
  "hexChar n = ''0123456789ABCDEF'' ! (n mod 16)"

definition pctByte :: "char \<Rightarrow> string" where
  "pctByte c = [CHR ''%'', hexChar ((of_char c :: nat) div 16), hexChar ((of_char c :: nat) mod 16)]"

definition pctEncode :: "(char \<Rightarrow> bool) \<Rightarrow> string \<Rightarrow> string" where
  "pctEncode enc s = concat (map (\<lambda>c. if enc c then pctByte c else [c]) s)"

subsection \<open>The parts of a parsed URL\<close>

text \<open>
  A URL with a special scheme has credentials, a host, an optional port and a list of path
  segments; a URL such as \<^verbatim>\<open>mailto:x@y.com\<close> has an opaque path and no host.
\<close>

datatype url_parts =
  Special string string string string "string option" "string list" "string option" "string option"
  | OpaquePath string string "string option" "string option"

definition specialScheme :: "string \<Rightarrow> bool" where
  "specialScheme s = (s \<in> set [''http'', ''https'', ''ws'', ''wss'', ''ftp''])"

definition defaultPort :: "string \<Rightarrow> int" where
  "defaultPort s =
     (if s = ''http'' \<or> s = ''ws'' then 80 else if s = ''https'' \<or> s = ''wss'' then 443 else 21)"

definition optPrefix :: "char \<Rightarrow> string option \<Rightarrow> string" where
  "optPrefix c x = (case x of None \<Rightarrow> [] | Some s \<Rightarrow> c # s)"

definition pathString :: "string list \<Rightarrow> string" where
  "pathString segs = concat (map (\<lambda>s. CHR ''/'' # s) segs)"

fun serialize :: "url_parts \<Rightarrow> URL" where
  "serialize (Special sch user pass host port segs q f) =
     (let hostPort = host @ optPrefix CHR '':'' port;
          cred = (if user = [] \<and> pass = [] then []
                  else user @ (if pass = [] then [] else CHR '':'' # pass) @ ''@'')
      in \<lparr>href = sch @ ''://'' @ cred @ hostPort @ pathString segs
                  @ optPrefix CHR ''?'' q @ optPrefix CHR ''#'' f,
          origin = sch @ ''://'' @ hostPort, hostname = host, pathname = pathString segs\<rparr>)"
| "serialize (OpaquePath sch p q f) =
     \<lparr>href = sch @ '':'' @ p @ optPrefix CHR ''?'' q @ optPrefix CHR ''#'' f,
      origin = ''null'', hostname = [], pathname = p\<rparr>"

subsection \<open>The parser\<close>

text \<open>Leading and trailing C0 controls and spaces are removed, then every tab and newline.\<close>

definition c0OrSpace :: "char \<Rightarrow> bool" where
  "c0OrSpace c = ((of_char c :: nat) \<le> 32)"

definition cleanInput :: "string \<Rightarrow> string" where
  "cleanInput s =
     filter (\<lambda>c. (of_char c :: nat) \<notin> set [9, 10, 13])
       (rev (dropWhile c0OrSpace (rev (dropWhile c0OrSpace s))))"

text \<open>A scheme: a letter, then letters, digits, \<^verbatim>\<open>+\<close>, \<^verbatim>\<open>-\<close> and \<^verbatim>\<open>.\<close> up to a colon.\<close>

definition schemeOf :: "string \<Rightarrow> (string \<times> string) option" where
  "schemeOf s =
     (case s of
        [] \<Rightarrow> None
      | c # _ \<Rightarrow>
          if isAlpha c
          then (case dropWhile isSchemeChar s of
                  [] \<Rightarrow> None
                | d # rest \<Rightarrow>
                    if d = CHR '':'' then Some (map lowerChar (takeWhile isSchemeChar s), rest)
                    else None)
          else None)"

text \<open>Path text, query and fragment of what follows the authority or of a relative reference.\<close>

definition queryOf :: "string \<Rightarrow> string option" where
  "queryOf r =
     (case r of
        [] \<Rightarrow> None
      | c # t \<Rightarrow> if c = CHR ''?'' then Some (takeWhile (\<lambda>c. c \<noteq> CHR ''#'') t) else None)"

definition fragmentOf :: "string \<Rightarrow> string option" where
  "fragmentOf r = (case dropWhile (\<lambda>c. c \<noteq> CHR ''#'') r of [] \<Rightarrow> None | c # t \<Rightarrow> Some t)"

definition splitRef :: "string \<Rightarrow> string \<times> string option \<times> string option" where
  "splitRef s =
     (takeWhile (\<lambda>c. \<not> isPathEnd c) s,
      queryOf (dropWhile (\<lambda>c. \<not> isPathEnd c) s),
      fragmentOf (dropWhile (\<lambda>c. \<not> isPathEnd c) s))"

definition splitSlash :: "string \<Rightarrow> string list" where
  "splitSlash s =
     foldr (\<lambda>c acc. if isSlash c then [] # acc
                     else (case acc of [] \<Rightarrow> [[c]] | h # t \<Rightarrow> (c # h) # t)) s [[]]"

definition isSingleDot :: "string \<Rightarrow> bool" where
  "isSingleDot seg = (map lowerChar seg \<in> set [''.'', ''%2e''])"

definition isDoubleDot :: "string \<Rightarrow> bool" where
  "isDoubleDot seg = (map lowerChar seg \<in> set [''..'', ''.%2e'', ''%2e.'', ''%2e%2e''])"

text \<open>
  The path state: a double-dot segment removes the last segment, a single-dot segment is
  dropped, and either of them in last position leaves an empty segment.
\<close>

fun pathState :: "string list \<Rightarrow> string list \<Rightarrow> string list" where
  "pathState [] path = path"
| "pathState [seg] path =
     (if isDoubleDot seg then butlast path @ [[]]
      else if isSingleDot seg then path @ [[]]
      else path @ [pctEncode pathSet seg])"
| "pathState (seg # segs) path =
     pathState segs
       (if isDoubleDot seg then butlast path
        else if isSingleDot seg then path
        else path @ [pctEncode pathSet seg])"

text \<open>Numbers in decimal, octal and hexadecimal, as ports and IPv4 addresses need them.\<close>

definition digitValue :: "char \<Rightarrow> int" where
  "digitValue c = (if isDigit c then (of_char c :: int) - 48 else (of_char (lowerChar c) :: int) - 87)"

definition numberOfBase :: "int \<Rightarrow> string \<Rightarrow> int" where
  "numberOfBase b ds = foldl (\<lambda>n c. b * n + digitValue c) 0 ds"

definition digitChar :: "int \<Rightarrow> char" where
  "digitChar d = ''0123456789'' ! nat (d mod 10)"

function showNumber :: "int \<Rightarrow> string" where
  "showNumber n =
     (if n < 10 then [digitChar n] else showNumber (n div 10) @ [digitChar (n mod 10)])"
  by pat_completeness auto
termination
  by (relation "measure nat") auto

declare showNumber.simps [simp del]

definition labelsOf :: "string \<Rightarrow> string list" where
  "labelsOf h =
     foldr (\<lambda>c acc. if c = CHR ''.'' then [] # acc
                     else (case acc of [] \<Rightarrow> [[c]] | l # t \<Rightarrow> (c # l) # t)) h [[]]"

text \<open>
  A host whose last label is a number is an IPv4 address: up to four numbers, each but the
  last at most 255, written back as four decimal numbers.
\<close>

definition isOctDigit :: "char \<Rightarrow> bool" where
  "isOctDigit c = (let n = (of_char c :: nat) in 48 \<le> n \<and> n \<le> 55)"

definition ipv4Number :: "string \<Rightarrow> int option" where
  "ipv4Number p =
     (if p = [] then None
      else if take 2 p = ''0x''
      then (if list_all isHexDigit (drop 2 p) then Some (numberOfBase 16 (drop 2 p)) else None)
      else if 2 \<le> length p \<and> take 1 p = ''0''
      then (if list_all isOctDigit (drop 1 p) then Some (numberOfBase 8 (drop 1 p)) else None)
      else if list_all isDigit p then Some (numberOfBase 10 p) else None)"

definition numberParts :: "string \<Rightarrow> string list" where
  "numberParts h =
     (let ls = labelsOf h in if last ls = [] \<and> 1 < length ls then butlast ls else ls)"

definition endsInNumber :: "string \<Rightarrow> bool" where
  "endsInNumber h =
     (let l = last (numberParts h)
      in l \<noteq> [] \<and> (list_all isDigit l \<or> ipv4Number l \<noteq> None))"

definition dotted :: "int \<Rightarrow> string" where
  "dotted v =
     showNumber (v div 16777216) @ ''.'' @ showNumber (v div 65536 mod 256) @ ''.''
       @ showNumber (v div 256 mod 256) @ ''.'' @ showNumber (v mod 256)"

definition ipv4Parse :: "string \<Rightarrow> string option" where
  "ipv4Parse h =
     (let parts = numberParts h
      in if 4 < length parts then None
         else (case those (map ipv4Number parts) of
                 None \<Rightarrow> None
               | Some ns \<Rightarrow>
                   if list_ex (\<lambda>n. 255 < n) (butlast ns) \<or> 256 ^ (5 - length ns) \<le> last ns then None
                   else Some (dotted (last ns
                          + sum_list (map (\<lambda>(i, n). n * 256 ^ (3 - i)) (enumerate 0 (butlast ns)))))))"

text \<open>
  The host of a special URL: lower-cased, or the IPv4 address it denotes. \<open>None\<close> is a
  host the constructor refuses; it is also the answer for hosts that need IDNA or IPv6
  parsing (a byte above 127, a percent sign, a label that starts with \<^verbatim>\<open>xn--\<close>, a
  bracket), which are not modelled.
\<close>

definition forbiddenDomain :: "char \<Rightarrow> bool" where
  "forbiddenDomain c =
     (let n = (of_char c :: nat)
      in n \<le> 32 \<or> 127 \<le> n
         \<or> n \<in> set [0x23, 0x25, 0x2F, 0x3A, 0x3C, 0x3E, 0x3F, 0x40, 0x5B, 0x5C, 0x5D, 0x5E, 0x7C])"

definition parseHost :: "string \<Rightarrow> string option" where
  "parseHost t =
     (let h = map lowerChar t
      in if t = [] \<or> list_ex forbiddenDomain t \<or> list_ex (\<lambda>l. take 4 l = ''xn--'') (labelsOf h)
         then None
         else if endsInNumber h then ipv4Parse h
         else Some h)"

definition parsePort :: "string \<Rightarrow> string \<Rightarrow> string option option" where
  "parsePort sch t =
     (if \<not> list_all isDigit t then None
      else if t = [] then Some None
      else let n = numberOfBase 10 t
           in if 65535 < n then None
              else if n = defaultPort sch then Some None
              else Some (Some (showNumber n)))"

text \<open>
  A special URL from its credentials, host and port and the text of path, query and
  fragment; the path state starts from the given segments.
\<close>

definition withReference ::
  "string \<Rightarrow> string \<Rightarrow> string \<Rightarrow> string \<Rightarrow> string option \<Rightarrow> string list \<Rightarrow> string \<Rightarrow> url_parts" where
  "withReference sch user pass host port path0 t =
     (case splitRef t of
        (pathText, q, f) \<Rightarrow>
          Special sch user pass host port (pathState (splitSlash pathText) path0)
            (map_option (pctEncode specialQuerySet) q) (map_option (pctEncode fragmentSet) f))"

text \<open>
  The authority of a special URL and what follows it. The text starts after the slashes
  that introduce the authority; the slash that ends the authority opens the path.
\<close>

definition parseAuthority :: "string \<Rightarrow> string \<Rightarrow> url_parts option" where
  "parseAuthority sch t =
     (let auth = takeWhile (\<lambda>c. \<not> isSlash c \<and> \<not> isPathEnd c) t;
          rest = dropWhile (\<lambda>c. \<not> isSlash c \<and> \<not> isPathEnd c) t;
          hostPort = rev (takeWhile (\<lambda>c. c \<noteq> CHR ''@'') (rev auth));
          cred = take (length auth - length hostPort - 1) auth;
          user = takeWhile (\<lambda>c. c \<noteq> CHR '':'') cred;
          pass = drop 1 (dropWhile (\<lambda>c. c \<noteq> CHR '':'') cred);
          hostText = takeWhile (\<lambda>c. c \<noteq> CHR '':'') hostPort;
          portText = drop 1 (dropWhile (\<lambda>c. c \<noteq> CHR '':'') hostPort);
          afterSlash = (case rest of [] \<Rightarrow> [] | c # r \<Rightarrow> if isSlash c then r else rest)
      in case parseHost hostText of
           None \<Rightarrow> None
         | Some host \<Rightarrow>
             (case parsePort sch portText of
                None \<Rightarrow> None
              | Some port \<Rightarrow>
                  Some (withReference sch (pctEncode userinfoSet user) (pctEncode userinfoSet pass)
                          host port [] afterSlash)))"

text \<open>
  A reference without a scheme, against a parsed base: empty, scheme-relative,
  path-absolute, fragment-only, query-only or path-relative.
\<close>

fun resolveRelative :: "url_parts \<Rightarrow> string \<Rightarrow> url_parts option" where
  "resolveRelative (Special sch user pass host port segs bq bf) s =
     (case s of
        [] \<Rightarrow> Some (Special sch user pass host port segs bq None)
      | c # r \<Rightarrow>
          if isSlash c
          then (if list_ex isSlash (take 1 r) then parseAuthority sch (dropWhile isSlash s)
                else Some (withReference sch user pass host port [] r))
          else if c = CHR ''#''
          then Some (Special sch user pass host port segs bq (Some (pctEncode fragmentSet r)))
          else if c = CHR ''?''
          then (case splitRef s of
                  (pathText, q, f) \<Rightarrow>
                    Some (Special sch user pass host port segs
                            (map_option (pctEncode specialQuerySet) q)
                            (map_option (pctEncode fragmentSet) f)))
          else Some (withReference sch user pass host port (butlast segs) s))"
| "resolveRelative (OpaquePath sch p bq bf) s =
     (case s of
        [] \<Rightarrow> None
      | c # r \<Rightarrow>
          if c = CHR ''#'' then Some (OpaquePath sch p bq (Some (pctEncode fragmentSet r)))
          else None)"

text \<open>
  The parser proper, on cleaned input. A special scheme is followed by an authority, unless
  the base has the same scheme and no two slashes follow, when the rest is a relative
  reference. Any other scheme has an opaque path; \<^verbatim>\<open>file\<close> and \<^verbatim>\<open>blob\<close> URLs and
  non-special URLs with a slash after the colon are not modelled (\<open>None\<close>).
\<close>

definition sameScheme :: "url_parts option \<Rightarrow> string \<Rightarrow> bool" where
  "sameScheme base sch =
     (case base of Some (Special bsch _ _ _ _ _ _ _) \<Rightarrow> bsch = sch | _ \<Rightarrow> False)"

definition parseParts :: "url_parts option \<Rightarrow> string \<Rightarrow> url_parts option" where
  "parseParts base s =
     (case schemeOf s of
        Some (sch, rest) \<Rightarrow>
          if specialScheme sch
          then (if sameScheme base sch \<and> take 2 rest \<noteq> ''//''
                then (case base of None \<Rightarrow> None | Some b \<Rightarrow> resolveRelative b rest)
                else parseAuthority sch (dropWhile isSlash rest))
          else if sch = ''file'' \<or> sch = ''blob'' \<or> take 1 rest = ''/'' then None
          else (case splitRef rest of
                  (pathText, q, f) \<Rightarrow>
                    Some (OpaquePath sch (pctEncode c0ControlSet pathText)
                            (map_option (pctEncode querySet) q)
                            (map_option (pctEncode fragmentSet) f)))
      | None \<Rightarrow> (case base of None \<Rightarrow> None | Some b \<Rightarrow> resolveRelative b s))"

text \<open>\<^verbatim>\<open>new URL(input)\<close> and \<^verbatim>\<open>new URL(input, base)\<close>: the base is parsed first, on its own.\<close>

definition URL_ref :: url_ctor where
  "URL_ref input base =
     (case base of
        None \<Rightarrow> map_option serialize (parseParts None (cleanInput input))
      | Some b \<Rightarrow>
          (case parseParts None (cleanInput b) of
             None \<Rightarrow> None
           | Some bp \<Rightarrow> map_option serialize (parseParts (Some bp) (cleanInput input))))"

section \<open>Link scope filter\<close>

text \<open>
  The source file holds two revisions of the crawler. \<open>filterLinks\<close> is the revision that
  keeps the resolved \<^verbatim>\<open>href\<close> and tests the lower-cased path against four extensions;
  \<open>filterLinks2\<close> is the revision that returns \<^verbatim>\<open>origin + pathname\<close> without a trailing
  slash and tests that string against three extensions. Each loop body is one function;
  an exception inside the \<^verbatim>\<open>try\<close> leaves the set as it was.
\<close>

definition skipHref :: "string \<Rightarrow> bool" where
  "skipHref h =
     (h = [] \<or> startsWith h ''#'' \<or> startsWith h ''mailto:'' \<or> startsWith h ''javascript:'')"

definition filterOne :: "url_ctor \<Rightarrow> string \<Rightarrow> string \<Rightarrow> bool \<Rightarrow> string \<Rightarrow> string list \<Rightarrow> string list" where
  "filterOne U currentUrl normalizedBase allowSubdomains h uniqueLinks =
     (if skipHref h then uniqueLinks
      else case U h (Some currentUrl) of
        None \<Rightarrow> uniqueLinks
      | Some resolved \<Rightarrow>
          let absoluteUrl = href resolved in
          (case U absoluteUrl None of
             None \<Rightarrow> uniqueLinks
           | Some urlObj \<Rightarrow>
               let currentHost = stripWww (hostname urlObj);
                   isSameDomain = (currentHost = normalizedBase);
                   isSubdomain = endsWith (hostname urlObj) (CHR ''.'' # normalizedBase)
               in if isSameDomain \<or> (allowSubdomains \<and> isSubdomain)
                  then let path = toLowerCase (pathname urlObj)
                       in if \<not> endsWith path ''.png'' \<and> \<not> endsWith path ''.jpg''
                             \<and> \<not> endsWith path ''.pdf'' \<and> \<not> endsWith path ''.zip''
                          then setAdd absoluteUrl uniqueLinks
                          else uniqueLinks
                  else uniqueLinks))"

definition filterLinks :: "url_ctor \<Rightarrow> string list \<Rightarrow> string \<Rightarrow> string \<Rightarrow> bool \<Rightarrow> string list" where
  "filterLinks U rawLinks currentUrl baseDomain allowSubdomains =
     fold (filterOne U currentUrl (stripWww baseDomain) allowSubdomains) rawLinks []"

definition filterOne2 :: "url_ctor \<Rightarrow> string \<Rightarrow> string \<Rightarrow> bool \<Rightarrow> string \<Rightarrow> string list \<Rightarrow> string list" where
  "filterOne2 U currentUrl normalizedBase allowSubdomains h uniqueLinks =
     (if skipHref h then uniqueLinks
      else case U h (Some currentUrl) of
        None \<Rightarrow> uniqueLinks
      | Some resolved \<Rightarrow>
          let absoluteUrl = href resolved in
          (case U absoluteUrl None of
             None \<Rightarrow> uniqueLinks
           | Some urlObj \<Rightarrow>
               let currentHost = stripWww (hostname urlObj);
                   isSameDomain = (currentHost = normalizedBase);
                   isSubdomain = endsWith (hostname urlObj) (CHR ''.'' # normalizedBase)
               in if isSameDomain \<or> (allowSubdomains \<and> isSubdomain)
                  then let normalized = origin urlObj @ stripTrailingSlash (pathname urlObj)
                       in if \<not> endsWith normalized ''.png'' \<and> \<not> endsWith normalized ''.jpg''
                             \<and> \<not> endsWith normalized ''.pdf''
                          then setAdd normalized uniqueLinks
                          else uniqueLinks
                  else uniqueLinks))"

definition filterLinks2 :: "url_ctor \<Rightarrow> string list \<Rightarrow> string \<Rightarrow> string \<Rightarrow> bool \<Rightarrow> string list" where
  "filterLinks2 U rawLinks currentUrl baseDomain allowSubdomains =
     fold (filterOne2 U currentUrl (stripWww baseDomain) allowSubdomains) rawLinks []"

section \<open>The page fetcher\<close>

text \<open>
  \<^verbatim>\<open>scrapeUrl\<close> drives a headless browser. What the browser finds is outside the program:
  the parameter \<open>B\<close> gives, for the \<open>n\<close>-th browser session of a crawl, the URL and the
  options, either the failure that the session raises or what it extracted, with the
  \<^verbatim>\<open>href\<close> of every anchor of the page. \<^verbatim>\<open>scrapeUrl\<close> keeps the anchors that are
  non-empty and start with \<^verbatim>\<open>http\<close> when \<^verbatim>\<open>includeLinks\<close> is set, and returns the
  record with \<^verbatim>\<open>url: url\<close>, the URL it was called with.
\<close>

datatype error = ScrapeError string | InvalidURL string

record ScrapeOptions =
  so_render :: "bool option"
  so_screenshot :: "bool option"
  so_waitFor :: "string option"
  so_includeLinks :: "bool option"

record Extracted =
  ex_title :: string
  ex_content :: string
  ex_textContent :: string
  ex_byline :: "string option"
  ex_siteName :: "string option"
  ex_screenshot :: "string option"
  ex_anchors :: "string list"

record ScrapeResult =
  title :: string
  content :: string
  textContent :: string
  byline :: "string option"
  siteName :: "string option"
  url :: string
  screenshot :: "string option"
  links :: "string list option"

type_synonym browser = "nat \<Rightarrow> string \<Rightarrow> ScrapeOptions \<Rightarrow> error + Extracted"

definition scrapeUrl :: "browser \<Rightarrow> nat \<Rightarrow> string \<Rightarrow> ScrapeOptions \<Rightarrow> error + ScrapeResult" where
  "scrapeUrl B n u options =
     (case B n u options of
        Inl e \<Rightarrow> Inl e
      | Inr x \<Rightarrow>
          let extractedLinks =
                (if so_includeLinks options = Some True
                 then filter (\<lambda>h. h \<noteq> [] \<and> startsWith h ''http'') (ex_anchors x)
                 else [])
          in Inr \<lparr>title = ex_title x, content = ex_content x, textContent = ex_textContent x,
                  byline = ex_byline x, siteName = ex_siteName x, url = u,
                  screenshot = ex_screenshot x, links = Some extractedLinks\<rparr>)"

section \<open>Crawl frontier engine\<close>

text \<open>
  \<^verbatim>\<open>maxPages\<close> and \<^verbatim>\<open>maxDepth\<close> are JavaScript numbers that the HTTP route passes on
  unchecked; they are integers here, so that zero and negative bounds are inputs of the
  model. An absent option is \<open>None\<close> and takes the default of the source.
\<close>

record CrawlOptions =
  co_maxPages :: "int option"
  co_maxDepth :: "int option"
  co_render :: "bool option"
  co_screenshot :: "bool option"
  co_allowSubdomains :: "bool option"

record Stats =
  pagesScraped :: nat
  linksDiscovered :: nat

record CrawlResult =
  pages :: "ScrapeResult list"
  stats :: Stats

datatype revision = Rev1 | Rev2

text \<open>The constants that \<^verbatim>\<open>crawlUrl\<close> computes before its loop.\<close>

record crawl_env =
  startUrl :: string
  startDomain :: string
  maxPages :: int
  maxDepth :: int
  allowSubdomains :: bool
  options :: CrawlOptions

text \<open>
  The variables of the loop. \<open>fetches\<close> is not a variable of the source: it records, in
  order, the URL and depth of every call of \<^verbatim>\<open>scrapeUrl\<close> (the source prints a line for
  each), so that claims about what is fetched can be stated.
\<close>

record crawl_state =
  visited :: "string set"
  queue :: "(string \<times> nat) list"
  results :: "ScrapeResult list"
  discovered :: nat
  fetches :: "(string \<times> nat) list"

text \<open>The options object that the loop passes to \<^verbatim>\<open>scrapeUrl\<close>.\<close>

definition scrapeOptionsOf :: "CrawlOptions \<Rightarrow> ScrapeOptions" where
  "scrapeOptionsOf opts =
     \<lparr>so_render = co_render opts, so_screenshot = co_screenshot opts,
      so_waitFor = None, so_includeLinks = Some True\<rparr>"

text \<open>
  The scope filter of each revision as the loop calls it. The second revision parses
  \<^verbatim>\<open>startUrl\<close> again inside the \<^verbatim>\<open>try\<close>; \<open>None\<close> is the exception that the
  \<^verbatim>\<open>catch\<close> of the loop would swallow.
\<close>

definition expandLinks :: "revision \<Rightarrow> url_ctor \<Rightarrow> crawl_env \<Rightarrow> string list \<Rightarrow> string \<Rightarrow> string list option" where
  "expandLinks rv U c ls u =
     (case rv of
        Rev1 \<Rightarrow> Some (filterLinks U ls u (startDomain c) (allowSubdomains c))
      | Rev2 \<Rightarrow>
          (case U (startUrl c) None of
             None \<Rightarrow> None
           | Some su \<Rightarrow> Some (filterLinks2 U ls u (hostname su) (allowSubdomains c))))"

text \<open>
  The \<^verbatim>\<open>for\<close> loop over the filtered links: \<^verbatim>\<open>visited\<close> and \<^verbatim>\<open>results\<close> do not
  change while it runs, the queue does.
\<close>

definition enqueueOne :: "string set \<Rightarrow> nat \<Rightarrow> int \<Rightarrow> nat \<Rightarrow> string \<Rightarrow> (string \<times> nat) list \<Rightarrow> (string \<times> nat) list" where
  "enqueueOne vis nres mp depth link q =
     (if link \<notin> vis \<and> int nres + int (length q) < mp * 2 then q @ [(link, depth + 1)] else q)"

definition enqueue :: "string set \<Rightarrow> nat \<Rightarrow> int \<Rightarrow> nat \<Rightarrow> string list \<Rightarrow> (string \<times> nat) list \<Rightarrow> (string \<times> nat) list" where
  "enqueue vis nres mp depth filteredLinks q = fold (enqueueOne vis nres mp depth) filteredLinks q"

text \<open>\<^verbatim>\<open>result.links || []\<close>.\<close>

definition linksOf :: "ScrapeResult \<Rightarrow> string list" where
  "linksOf r = (case links r of None \<Rightarrow> [] | Some ls \<Rightarrow> ls)"

text \<open>One iteration of the \<^verbatim>\<open>while\<close> loop.\<close>

definition crawlStep :: "revision \<Rightarrow> url_ctor \<Rightarrow> browser \<Rightarrow> crawl_env \<Rightarrow> crawl_state \<Rightarrow> crawl_state" where
  "crawlStep rv U B c s =
     (case queue s of
        [] \<Rightarrow> s
      | (u, depth) # rest \<Rightarrow>
          if u \<in> visited s \<or> int depth > maxDepth c then s\<lparr>queue := rest\<rparr>
          else
            let s1 = s\<lparr>visited := insert u (visited s), queue := rest,
                       fetches := fetches s @ [(u, depth)]\<rparr>
            in case scrapeUrl B (length (fetches s)) u (scrapeOptionsOf (options c)) of
                 Inl err \<Rightarrow> s1
               | Inr result \<Rightarrow>
                   let s2 = s1\<lparr>results := results s1 @ [result]\<rparr>
                   in if int depth \<ge> maxDepth c then s2
                      else
                        (case expandLinks rv U c (linksOf result) u of
                           None \<Rightarrow> s2
                         | Some filteredLinks \<Rightarrow>
                             s2\<lparr>discovered := discovered s2 + length filteredLinks,
                                queue := enqueue (visited s2) (length (results s2)) (maxPages c)
                                           depth filteredLinks (queue s2)\<rparr>))"

definition crawlGuard :: "crawl_env \<Rightarrow> crawl_state \<Rightarrow> bool" where
  "crawlGuard c s = (queue s \<noteq> [] \<and> int (length (results s)) < maxPages c)"

text \<open>
  The loop terminates: an iteration either appends a page while fewer than \<^verbatim>\<open>maxPages\<close>
  are held, or leaves the pages alone and shortens the queue (links are pushed only after a
  page was appended).
\<close>

lemma crawlStep_progress:
  assumes "crawlGuard c s"
  shows "(length (results (crawlStep rv U B c s)) = Suc (length (results s)))
       \<or> (results (crawlStep rv U B c s) = results s
           \<and> length (queue (crawlStep rv U B c s)) < length (queue s))"
  using assms
  by (auto simp: crawlGuard_def crawlStep_def Let_def
           split: list.splits prod.splits sum.splits option.splits)

lemma crawlStep_decreases:
  assumes "crawlGuard c s"
  shows "((rv, U, B, c, crawlStep rv U B c s), (rv, U, B, c, s))
         \<in> measures [\<lambda>(rv, U, B, c, s). nat (maxPages c - int (length (results s))),
                      \<lambda>(rv, U, B, c, s). length (queue s)]"
proof -
  from crawlStep_progress [OF assms, of rv U B] show ?thesis
  proof
    assume "length (results (crawlStep rv U B c s)) = Suc (length (results s))"
    with assms show ?thesis by (simp add: crawlGuard_def)
  next
    assume "results (crawlStep rv U B c s) = results s
            \<and> length (queue (crawlStep rv U B c s)) < length (queue s)"
    then show ?thesis by simp
  qed
qed

function crawlLoop :: "revision \<Rightarrow> url_ctor \<Rightarrow> browser \<Rightarrow> crawl_env \<Rightarrow> crawl_state \<Rightarrow> crawl_state" where
  "crawlLoop rv U B c s =
     (if crawlGuard c s then crawlLoop rv U B c (crawlStep rv U B c s) else s)"
  by pat_completeness auto
termination
  by (relation "measures [\<lambda>(rv, U, B, c, s). nat (maxPages c - int (length (results s))),
                          \<lambda>(rv, U, B, c, s). length (queue s)]")
     (simp, rule crawlStep_decreases)

declare crawlLoop.simps [simp del]

text \<open>
  The states at the head of the loop, in order, from the given one to the one the loop
  exits with: what "during a crawl" quantifies over.
\<close>

function crawlStates :: "revision \<Rightarrow> url_ctor \<Rightarrow> browser \<Rightarrow> crawl_env \<Rightarrow> crawl_state \<Rightarrow> crawl_state list" where
  "crawlStates rv U B c s =
     (if crawlGuard c s then s # crawlStates rv U B c (crawlStep rv U B c s) else [s])"
  by pat_completeness auto
termination
  by (relation "measures [\<lambda>(rv, U, B, c, s). nat (maxPages c - int (length (results s))),
                          \<lambda>(rv, U, B, c, s). length (queue s)]")
     (simp, rule crawlStep_decreases)

declare crawlStates.simps [simp del]

definition initState :: "string \<Rightarrow> crawl_state" where
  "initState su = \<lparr>visited = {}, queue = [(su, 0)], results = [], discovered = 0, fetches = []\<rparr>"

text \<open>\<^verbatim>\<open>options.maxPages ?? 10\<close>, \<^verbatim>\<open>options.maxDepth ?? 2\<close>, \<^verbatim>\<open>options.allowSubdomains ?? false\<close>.\<close>

definition maxPagesOf :: "CrawlOptions \<Rightarrow> int" where
  "maxPagesOf opts = (case co_maxPages opts of None \<Rightarrow> 10 | Some n \<Rightarrow> n)"

definition maxDepthOf :: "CrawlOptions \<Rightarrow> int" where
  "maxDepthOf opts = (case co_maxDepth opts of None \<Rightarrow> 2 | Some n \<Rightarrow> n)"

definition allowSubdomainsOf :: "CrawlOptions \<Rightarrow> bool" where
  "allowSubdomainsOf opts = (case co_allowSubdomains opts of None \<Rightarrow> False | Some b \<Rightarrow> b)"

definition envOf :: "string \<Rightarrow> CrawlOptions \<Rightarrow> string \<Rightarrow> crawl_env" where
  "envOf su opts host =
     \<lparr>startUrl = su, startDomain = host,
      maxPages = maxPagesOf opts, maxDepth = maxDepthOf opts,
      allowSubdomains = allowSubdomainsOf opts,
      options = opts\<rparr>"

text \<open>
  \<open>crawlRun\<close> is \<^verbatim>\<open>crawlUrl\<close> up to the end of its loop: it returns the final state, or
  the error of \<^verbatim>\<open>new URL(startUrl)\<close>, which is raised before the loop. \<open>crawlUrl\<close> builds
  the result from that state. The \<^verbatim>\<open>duration\<close> field is wall-clock time and is left out.
\<close>

definition crawlRun :: "revision \<Rightarrow> url_ctor \<Rightarrow> browser \<Rightarrow> string \<Rightarrow> CrawlOptions \<Rightarrow> error + crawl_state" where
  "crawlRun rv U B su opts =
     (case U su None of
        None \<Rightarrow> Inl (InvalidURL su)
      | Some parsed \<Rightarrow> Inr (crawlLoop rv U B (envOf su opts (hostname parsed)) (initState su)))"

definition resultOf :: "crawl_state \<Rightarrow> CrawlResult" where
  "resultOf s =
     \<lparr>pages = results s,
      stats = \<lparr>pagesScraped = length (results s), linksDiscovered = discovered s\<rparr>\<rparr>"

definition crawlUrl :: "revision \<Rightarrow> url_ctor \<Rightarrow> browser \<Rightarrow> string \<Rightarrow> CrawlOptions \<Rightarrow> error + CrawlResult" where
  "crawlUrl rv U B su opts =
     (case crawlRun rv U B su opts of Inl e \<Rightarrow> Inl e | Inr s \<Rightarrow> Inr (resultOf s))"

section \<open>What a crawl fetched\<close>

text \<open>
  The claims speak of the pages that were fetched, of their depth and of the links found on
  them. These are read off the record of fetches: \<open>outcomes\<close> pairs the depth of each
  fetch with what \<^verbatim>\<open>scrapeUrl\<close> returned for it, \<open>fetchedPages\<close> keeps the successful
  ones, and \<open>expansionSize\<close> is the number of in-scope links of a page that was fetched
  below \<^verbatim>\<open>maxDepth\<close>.
\<close>

definition scopeFilter :: "revision \<Rightarrow> url_ctor \<Rightarrow> string list \<Rightarrow> string \<Rightarrow> string \<Rightarrow> bool \<Rightarrow> string list" where
  "scopeFilter rv U = (case rv of Rev1 \<Rightarrow> filterLinks U | Rev2 \<Rightarrow> filterLinks2 U)"

definition outcomes :: "browser \<Rightarrow> CrawlOptions \<Rightarrow> (string \<times> nat) list \<Rightarrow> (nat \<times> (error + ScrapeResult)) list" where
  "outcomes B opts log =
     map (\<lambda>(i, (u, d)). (d, scrapeUrl B i u (scrapeOptionsOf opts))) (enumerate 0 log)"

fun successOf :: "nat \<times> (error + ScrapeResult) \<Rightarrow> ScrapeResult list" where
  "successOf (d, Inl e) = []"
| "successOf (d, Inr r) = [r]"

definition fetchedPages :: "browser \<Rightarrow> CrawlOptions \<Rightarrow> (string \<times> nat) list \<Rightarrow> ScrapeResult list" where
  "fetchedPages B opts log = concat (map successOf (outcomes B opts log))"

fun expansionSize :: "revision \<Rightarrow> url_ctor \<Rightarrow> crawl_env \<Rightarrow> nat \<times> (error + ScrapeResult) \<Rightarrow> nat" where
  "expansionSize rv U c (d, Inl e) = 0"
| "expansionSize rv U c (d, Inr r) =
     (if int d < maxDepth c
      then length (scopeFilter rv U (linksOf r) (url r) (startDomain c) (allowSubdomains c))
      else 0)"

text \<open>A small site for evaluating the crawler: five pages on one host, one of them failing.\<close>

definition pageWith :: "string list \<Rightarrow> Extracted" where
  "pageWith anchors =
     \<lparr>ex_title = ''t'', ex_content = ''c'', ex_textContent = ''x'', ex_byline = None,
      ex_siteName = None, ex_screenshot = None, ex_anchors = anchors\<rparr>"

definition siteA :: browser where
  "siteA n u opts =
     (if u = ''http://a.io/''
      then Inr (pageWith [''http://a.io/p'', ''http://a.io/q?x=1'', ''http://b.io/'',
                          ''http://a.io/p'', ''http://a.io/t''])
      else if u = ''http://a.io/p'' then Inl (ScrapeError ''timeout'')
      else if u = ''http://a.io/q?x=1'' \<or> u = ''http://a.io/q''
      then Inr (pageWith [''http://a.io/'', ''http://a.io/r''])
      else if u = ''http://a.io/t'' then Inr (pageWith [])
      else if u = ''http://a.io/r'' then Inr (pageWith [''http://a.io/t''])
      else Inl (ScrapeError ''dns''))"

definition rootPage :: ScrapeResult where
  "rootPage =
     \<lparr>title = ''t'', content = ''c'', textContent = ''x'', byline = None, siteName = None,
      url = ''http://a.io/'', screenshot = None,
      links = Some [''http://a.io/p'', ''http://a.io/q?x=1'', ''http://b.io/'',
                    ''http://a.io/p'', ''http://a.io/t'']\<rparr>"

definition optsOf :: "int \<Rightarrow> int \<Rightarrow> CrawlOptions" where
  "optsOf mp md =
     \<lparr>co_maxPages = Some mp, co_maxDepth = Some md, co_render = None, co_screenshot = None,
      co_allowSubdomains = None\<rparr>"

text \<open>
  Two invariants of the loop. \<open>visitInv\<close>: the fetched URLs are pairwise distinct and
  lie in \<^verbatim>\<open>visited\<close>, and so do the URLs of the pages. \<open>logInv\<close>: the pages are the
  successful fetches in order, and the link count is the sum of the expansion sizes.
\<close>

definition visitInv :: "crawl_state \<Rightarrow> bool" where
  "visitInv t = (distinct (map fst (fetches t)) \<and> fst ` set (fetches t) \<subseteq> visited t
                 \<and> distinct (map url (results t)) \<and> url ` set (results t) \<subseteq> visited t)"

definition logInv :: "revision \<Rightarrow> url_ctor \<Rightarrow> browser \<Rightarrow> crawl_env \<Rightarrow> crawl_state \<Rightarrow> bool" where
  "logInv rv U B c t =
     (results t = fetchedPages B (options c) (fetches t)
      \<and> discovered t = sum_list (map (expansionSize rv U c) (outcomes B (options c) (fetches t))))"

text \<open>States of the example site used for evaluation.\<close>

definition finalA :: crawl_state where
  "finalA = crawlLoop Rev1 URL_ref siteA (envOf ''http://a.io/'' (optsOf 10 2) ''a.io'')
              (initState ''http://a.io/'')"

definition stateP :: crawl_state where
  "stateP = \<lparr>visited = {''http://a.io/''},
             queue = [(''http://a.io/p'', 1), (''http://a.io/q?x=1'', 1), (''http://a.io/t'', 1)],
             results = [rootPage], discovered = 3, fetches = [(''http://a.io/'', 0)]\<rparr>"

text \<open>What the example evaluations read off a state: page URLs, link count, fetches, queue.\<close>

definition summary :: "crawl_state \<Rightarrow> string list \<times> nat \<times> (string \<times> nat) list \<times> (string \<times> nat) list" where
  "summary t = (map url (results t), discovered t, fetches t, queue t)"

text \<open>\<open>capInv\<close>: pages held plus entries queued stay within twice \<^verbatim>\<open>maxPages\<close>.\<close>

definition capInv :: "crawl_env \<Rightarrow> crawl_state \<Rightarrow> bool" where
  "capInv c t = (int (length (results t)) + int (length (queue t)) \<le> maxPages c * 2)"

definition finalB :: crawl_state where
  "finalB = crawlLoop Rev1 URL_ref siteA (envOf ''http://a.io/'' (optsOf 1 1) ''a.io'')
              (initState ''http://a.io/'')"

text \<open>A path that ends in one of the four asset extensions, and two URLs of the example site.\<close>

definition assetPath :: "string \<Rightarrow> bool" where
  "assetPath p = (endsWith p ''.png'' \<or> endsWith p ''.jpg'' \<or> endsWith p ''.pdf'' \<or> endsWith p ''.zip'')"

definition urlQ :: "string \<Rightarrow> URL" where
  "urlQ tail = \<lparr>href = ''http://a.io/q'' @ tail, origin = ''http://a.io'', hostname = ''a.io'',
                pathname = ''/q''\<rparr>"

text \<open>A string without \<^verbatim>\<open>?\<close> and \<^verbatim>\<open>#\<close>, and parsed parts whose origin and path are such.\<close>

definition plain :: "string \<Rightarrow> bool" where
  "plain s = (CHR ''?'' \<notin> set s \<and> CHR ''#'' \<notin> set s)"

fun partsPlain :: "url_parts \<Rightarrow> bool" where
  "partsPlain (Special sch user pass host port segs q f) =
     (plain sch \<and> plain host \<and> plain (optPrefix CHR '':'' port) \<and> list_all plain segs)"
| "partsPlain (OpaquePath sch p q f) = plain p"

section \<open>Properties of the loop\<close>

text \<open>
  An iteration that the guard admits takes one of five courses: the entry is discarded,
  the fetch fails, the page is at \<^verbatim>\<open>maxDepth\<close> and is kept without expansion, the
  expansion raises inside the \<^verbatim>\<open>try\<close>, or the page is expanded.
\<close>

lemma crawlStep_cases [consumes 1, case_names skip fail leaf thrown expand]:
  assumes "crawlGuard c s"
  obtains
    (skip) u d rest where "queue s = (u, d) # rest" "u \<in> visited s \<or> int d > maxDepth c"
      "crawlStep rv U B c s = s\<lparr>queue := rest\<rparr>"
  | (fail) u d rest e where "queue s = (u, d) # rest" "u \<notin> visited s" "int d \<le> maxDepth c"
      "scrapeUrl B (length (fetches s)) u (scrapeOptionsOf (options c)) = Inl e"
      "crawlStep rv U B c s =
         s\<lparr>visited := insert u (visited s), queue := rest, fetches := fetches s @ [(u, d)]\<rparr>"
  | (leaf) u d rest r where "queue s = (u, d) # rest" "u \<notin> visited s" "int d = maxDepth c"
      "scrapeUrl B (length (fetches s)) u (scrapeOptionsOf (options c)) = Inr r"
      "crawlStep rv U B c s =
         s\<lparr>visited := insert u (visited s), queue := rest, fetches := fetches s @ [(u, d)],
           results := results s @ [r]\<rparr>"
  | (thrown) u d rest r where "queue s = (u, d) # rest" "u \<notin> visited s" "int d < maxDepth c"
      "scrapeUrl B (length (fetches s)) u (scrapeOptionsOf (options c)) = Inr r"
      "expandLinks rv U c (linksOf r) u = None"
      "crawlStep rv U B c s =
         s\<lparr>visited := insert u (visited s), queue := rest, fetches := fetches s @ [(u, d)],
           results := results s @ [r]\<rparr>"
  | (expand) u d rest r fl where "queue s = (u, d) # rest" "u \<notin> visited s" "int d < maxDepth c"
      "scrapeUrl B (length (fetches s)) u (scrapeOptionsOf (options c)) = Inr r"
      "expandLinks rv U c (linksOf r) u = Some fl"
      "crawlStep rv U B c s =
         s\<lparr>visited := insert u (visited s), queue := rest, fetches := fetches s @ [(u, d)],
           results := results s @ [r], discovered := discovered s + length fl,
           queue := enqueue (insert u (visited s)) (Suc (length (results s))) (maxPages c) d fl rest\<rparr>"
proof -
  from assms obtain u d rest where q: "queue s = (u, d) # rest"
    by (cases "queue s") (auto simp: crawlGuard_def)
  show thesis
  proof (cases "u \<in> visited s \<or> int d > maxDepth c")
    case True
    with q skip show ?thesis by (simp add: crawlStep_def)
  next
    case nskip: False
    show ?thesis
    proof (cases "scrapeUrl B (length (fetches s)) u (scrapeOptionsOf (options c))")
      case (Inl e)
      with q nskip fail [of u d rest e] show ?thesis by (simp add: crawlStep_def)
    next
      case (Inr r)
      show ?thesis
      proof (cases "int d \<ge> maxDepth c")
        case True
        with q nskip Inr leaf [of u d rest r] show ?thesis by (simp add: crawlStep_def)
      next
        case deeper: False
        show ?thesis
        proof (cases "expandLinks rv U c (linksOf r) u")
          case None
          with q nskip Inr deeper thrown [of u d rest r] show ?thesis
            by (simp add: crawlStep_def)
        next
          case (Some fl)
          with q nskip Inr deeper expand [of u d rest r fl] show ?thesis
            by (simp add: crawlStep_def)
        qed
      qed
    qed
  qed
qed

lemma crawlLoop_invariant:
  assumes "I s" and "\<And>t. I t \<Longrightarrow> crawlGuard c t \<Longrightarrow> I (crawlStep rv U B c t)"
  shows "I (crawlLoop rv U B c s)"
  using assms
proof (induction rv U B c s rule: crawlLoop.induct)
  case (1 rv U B c s)
  show ?case
  proof (cases "crawlGuard c s")
    case True
    then have "I (crawlStep rv U B c s)" using 1(2,3) by blast
    with True 1(1,3) have "I (crawlLoop rv U B c (crawlStep rv U B c s))" by blast
    with True show ?thesis by (subst crawlLoop.simps) simp
  next
    case False
    with 1(2) show ?thesis by (subst crawlLoop.simps) simp
  qed
qed

lemma crawlStates_invariant:
  assumes "I s" and "\<And>t. I t \<Longrightarrow> crawlGuard c t \<Longrightarrow> I (crawlStep rv U B c t)"
  shows "\<forall>t \<in> set (crawlStates rv U B c s). I t"
  using assms
proof (induction rv U B c s rule: crawlStates.induct)
  case (1 rv U B c s)
  show ?case
  proof (cases "crawlGuard c s")
    case True
    then have "I (crawlStep rv U B c s)" using 1(2,3) by blast
    with True 1(1,3) have "\<forall>t \<in> set (crawlStates rv U B c (crawlStep rv U B c s)). I t" by blast
    with True 1(2) show ?thesis by (subst crawlStates.simps) simp
  next
    case False
    with 1(2) show ?thesis by (subst crawlStates.simps) simp
  qed
qed

lemma crawlStates_nonempty: "crawlStates rv U B c s \<noteq> []"
  by (subst crawlStates.simps) simp

lemma crawlLoop_last: "crawlLoop rv U B c s = last (crawlStates rv U B c s)"
proof (induction rv U B c s rule: crawlStates.induct)
  case (1 rv U B c s)
  show ?case
  proof (cases "crawlGuard c s")
    case True
    with 1 show ?thesis
      by (subst crawlLoop.simps, subst crawlStates.simps) (simp add: crawlStates_nonempty)
  next
    case False
    then show ?thesis by (subst crawlLoop.simps, subst crawlStates.simps) simp
  qed
qed

lemma crawlLoop_exit: "\<not> crawlGuard c (crawlLoop rv U B c s)"
proof (induction rv U B c s rule: crawlLoop.induct)
  case (1 rv U B c s)
  then show ?case by (subst crawlLoop.simps) simp
qed

lemma outcomes_snoc:
  "outcomes B opts (log @ [(u, d)]) =
     outcomes B opts log @ [(d, scrapeUrl B (length log) u (scrapeOptionsOf opts))]"
  by (simp add: outcomes_def enumerate_append_eq)

lemma scrapeUrl_url: "scrapeUrl B n u opts = Inr r \<Longrightarrow> url r = u"
  by (auto simp: scrapeUrl_def Let_def split: sum.splits)

lemma crawlLoop_stop: "\<not> crawlGuard c s \<Longrightarrow> crawlLoop rv U B c s = s"
  by (subst crawlLoop.simps) simp

lemma crawlLoop_unfold: "crawlGuard c s \<Longrightarrow> crawlLoop rv U B c s = crawlLoop rv U B c (crawlStep rv U B c s)"
  by (subst crawlLoop.simps) simp

lemma crawlUrl_Inr:
  "crawlUrl rv U B su opts = Inr r \<Longrightarrow>
     \<exists>p. U su None = Some p \<and>
         r = resultOf (crawlLoop rv U B (envOf su opts (hostname p)) (initState su))"
  by (auto simp: crawlUrl_def crawlRun_def split: option.splits sum.splits)

lemma crawlRun_Inr:
  "crawlRun rv U B su opts = Inr s \<Longrightarrow>
     \<exists>p. U su None = Some p \<and>
         s = crawlLoop rv U B (envOf su opts (hostname p)) (initState su)"
  by (auto simp: crawlRun_def split: option.splits)

lemma results_bound_step:
  assumes "crawlGuard c s"
  shows "int (length (results (crawlStep rv U B c s))) \<le> maxPages c"
  using assms
  by (cases rule: crawlStep_cases [where rv = rv and U = U and B = B])
     (use assms in \<open>auto simp: crawlGuard_def\<close>)

lemma crawlLoop_results_bound:
  assumes "int (length (results s)) \<le> maxPages c"
  shows "int (length (results (crawlLoop rv U B c s))) \<le> maxPages c"
  by (rule crawlLoop_invariant [where I = "\<lambda>t. int (length (results t)) \<le> maxPages c", OF assms])
     (rule results_bound_step)

lemma crawlUrl_parsed:
  "U su None = Some p \<Longrightarrow>
     crawlRun rv U B su opts = Inr (crawlLoop rv U B (envOf su opts (hostname p)) (initState su))
   \<and> crawlUrl rv U B su opts
       = Inr (resultOf (crawlLoop rv U B (envOf su opts (hostname p)) (initState su)))"
  by (simp add: crawlUrl_def crawlRun_def)

lemma URL_ref_a_io:
  "URL_ref ''http://a.io/'' None
     = Some \<lparr>href = ''http://a.io/'', origin = ''http://a.io'', hostname = ''a.io'', pathname = ''/''\<rparr>"
  by code_simp

lemma siteA_root: "scrapeUrl siteA 0 ''http://a.io/'' (scrapeOptionsOf (optsOf mp md)) = Inr rootPage"
  by (simp add: scrapeUrl_def siteA_def scrapeOptionsOf_def optsOf_def pageWith_def rootPage_def
        startsWith_def)

lemma visitInv_step:
  assumes "visitInv s" and "crawlGuard c s"
  shows "visitInv (crawlStep rv U B c s)"
  using assms(2)
proof (cases rule: crawlStep_cases [where rv = rv and U = U and B = B])
  case (skip u d rest)
  with assms(1) show ?thesis by (simp add: visitInv_def)
next
  case (fail u d rest e)
  with assms(1) show ?thesis by (auto simp: visitInv_def)
next
  case (leaf u d rest r)
  from leaf(4) have "url r = u" by (rule scrapeUrl_url)
  with leaf assms(1) show ?thesis by (auto simp: visitInv_def)
next
  case (thrown u d rest r)
  from thrown(4) have "url r = u" by (rule scrapeUrl_url)
  with thrown assms(1) show ?thesis by (auto simp: visitInv_def)
next
  case (expand u d rest r fl)
  from expand(4) have "url r = u" by (rule scrapeUrl_url)
  with expand assms(1) show ?thesis by (auto simp: visitInv_def)
qed

lemma visitInv_init: "visitInv (initState su)"
  by (simp add: visitInv_def initState_def)

lemma visitInv_loop: "visitInv (crawlLoop rv U B c (initState su))"
  by (rule crawlLoop_invariant [where I = visitInv, OF visitInv_init]) (rule visitInv_step)

lemma runA: "crawlRun Rev1 URL_ref siteA ''http://a.io/'' (optsOf 10 2) = Inr finalA"
  using crawlUrl_parsed [where U = URL_ref and su = "''http://a.io/''", OF URL_ref_a_io]
  by (simp add: finalA_def)

lemma finalA_summary:
  "summary finalA
     = ([''http://a.io/'', ''http://a.io/q?x=1'', ''http://a.io/t'', ''http://a.io/r''], 5,
        [(''http://a.io/'', 0), (''http://a.io/p'', 1), (''http://a.io/q?x=1'', 1),
         (''http://a.io/t'', 1), (''http://a.io/r'', 2)], [])"
  unfolding finalA_def by code_simp

lemma finalA_fetches:
  "fetches finalA = [(''http://a.io/'', 0), (''http://a.io/p'', 1), (''http://a.io/q?x=1'', 1),
                     (''http://a.io/t'', 1), (''http://a.io/r'', 2)]"
  using finalA_summary by (simp add: summary_def)

lemma finalA_urls:
  "map url (results finalA) = [''http://a.io/'', ''http://a.io/q?x=1'', ''http://a.io/t'', ''http://a.io/r'']"
  using finalA_summary by (simp add: summary_def)

lemma finalA_count: "length (results finalA) = 4"
  using arg_cong [OF finalA_urls, of length] by simp

lemma finalA_discovered: "discovered finalA = 5"
  using finalA_summary by (simp add: summary_def)

lemma finalA_queue: "queue finalA = []"
  using finalA_summary by (simp add: summary_def)

lemma stateP_reached:
  "crawlStep Rev1 URL_ref siteA (envOf ''http://a.io/'' (optsOf 10 2) ''a.io'') (initState ''http://a.io/'')
     = stateP"
  unfolding stateP_def rootPage_def by code_simp

lemma expandLinks_scope:
  assumes "U (startUrl c) None = Some p" and "startDomain c = hostname p"
  shows "expandLinks rv U c ls u = Some (scopeFilter rv U ls u (startDomain c) (allowSubdomains c))"
  using assms by (cases rv) (simp_all add: expandLinks_def scopeFilter_def)

lemma logInv_step:
  assumes env: "U (startUrl c) None = Some p" "startDomain c = hostname p"
    and inv: "logInv rv U B c s" and g: "crawlGuard c s"
  shows "logInv rv U B c (crawlStep rv U B c s)"
  using g
proof (cases rule: crawlStep_cases [where rv = rv and U = U and B = B])
  case (skip u d rest)
  with inv show ?thesis by (simp add: logInv_def)
next
  case (fail u d rest e)
  with inv show ?thesis by (simp add: logInv_def fetchedPages_def outcomes_snoc)
next
  case (leaf u d rest r)
  with inv show ?thesis by (simp add: logInv_def fetchedPages_def outcomes_snoc)
next
  case (thrown u d rest r)
  with expandLinks_scope [where U = U and c = c and rv = rv and ls = "linksOf r" and u = u, OF env] show ?thesis by simp
next
  case (expand u d rest r fl)
  from expand(4) have u: "url r = u" by (rule scrapeUrl_url)
  from expand(5) expandLinks_scope [where U = U and c = c and rv = rv and ls = "linksOf r" and u = u, OF env]
  have fl: "fl = scopeFilter rv U (linksOf r) u (startDomain c) (allowSubdomains c)" by simp
  from inv expand(3,4,6) u fl show ?thesis
    by (simp add: logInv_def fetchedPages_def outcomes_snoc)
qed

lemma logInv_loop:
  assumes "U su None = Some p"
  shows "logInv rv U B (envOf su opts (hostname p))
           (crawlLoop rv U B (envOf su opts (hostname p)) (initState su))"
proof (rule crawlLoop_invariant [where I = "logInv rv U B (envOf su opts (hostname p))"])
  show "logInv rv U B (envOf su opts (hostname p)) (initState su)"
    by (simp add: logInv_def initState_def fetchedPages_def outcomes_def)
next
  fix t
  assume "logInv rv U B (envOf su opts (hostname p)) t" "crawlGuard (envOf su opts (hostname p)) t"
  with assms show "logInv rv U B (envOf su opts (hostname p))
                     (crawlStep rv U B (envOf su opts (hostname p)) t)"
    by (intro logInv_step [where p = p]) (simp_all add: envOf_def)
qed

lemma siteA_p: "scrapeUrl siteA n ''http://a.io/p'' so = Inl (ScrapeError ''timeout'')"
  by (simp add: scrapeUrl_def siteA_def)

lemma enqueue_Nil: "enqueue vis n mp d [] q = q"
  by (simp add: enqueue_def)

lemma enqueue_Cons:
  "enqueue vis n mp d (l # ls) q = enqueue vis n mp d ls (enqueueOne vis n mp d l q)"
  by (simp add: enqueue_def)

lemma enqueue_take:
  "enqueue vis n mp d fl q
     = q @ take (nat (mp * 2 - int n - int (length q)))
               (map (\<lambda>l. (l, d + 1)) (filter (\<lambda>l. l \<notin> vis) fl))"
proof (induction fl arbitrary: q)
  case Nil
  show ?case by (simp add: enqueue_Nil)
next
  case (Cons l ls)
  show ?case
  proof (cases "l \<notin> vis \<and> int n + int (length q) < mp * 2")
    case True
    then have k: "nat (mp * 2 - int n - int (length q))
                  = Suc (nat (mp * 2 - int n - int (length (q @ [(l, d + 1)]))))"
      by simp arith
    from True have e: "enqueueOne vis n mp d l q = q @ [(l, d + 1)]"
      by (simp add: enqueueOne_def)
    from True show ?thesis
      unfolding enqueue_Cons e Cons.IH k by simp
  next
    case False
    then have e: "enqueueOne vis n mp d l q = q" by (simp add: enqueueOne_def)
    show ?thesis
    proof (cases "l \<in> vis")
      case True
      then show ?thesis unfolding enqueue_Cons e Cons.IH by simp
    next
      case nv: False
      with False have "nat (mp * 2 - int n - int (length q)) = 0" by simp
      then show ?thesis unfolding enqueue_Cons e Cons.IH by simp
    qed
  qed
qed

lemma enqueue_bound:
  "int n + int (length (enqueue vis n mp d fl q)) \<le> max (int n + int (length q)) (mp * 2)"
  unfolding enqueue_take by simp

lemma capInv_step:
  assumes "capInv c s" and "crawlGuard c s"
  shows "capInv c (crawlStep rv U B c s)"
  using assms(2)
proof (cases rule: crawlStep_cases [where rv = rv and U = U and B = B])
  case (expand u d rest r fl)
  from assms(1) expand(1)
  have "int (Suc (length (results s))) + int (length rest) \<le> maxPages c * 2"
    by (simp add: capInv_def)
  with enqueue_bound [of "Suc (length (results s))" "insert u (visited s)" "maxPages c" d fl rest]
  show ?thesis unfolding expand(6) capInv_def by simp
qed (use assms(1) in \<open>auto simp: capInv_def\<close>)

lemma length_filter_le_int: "int (length (filter P xs)) \<le> int (length xs)"
  by simp

lemma cap_states:
  assumes "0 \<le> maxPages c"
  shows "\<forall>t \<in> set (crawlStates rv U B c (initState su)).
           int (length (results t)) + int (length (filter (\<lambda>e. 0 < snd e) (queue t)))
             \<le> maxPages c * 2"
proof (cases "1 \<le> maxPages c")
  case True
  then have "capInv c (initState su)" by (simp add: capInv_def initState_def)
  then have "\<forall>t \<in> set (crawlStates rv U B c (initState su)). capInv c t"
    by (rule crawlStates_invariant) (rule capInv_step)
  then show ?thesis
  proof (intro ballI)
    fix t
    assume "\<forall>t \<in> set (crawlStates rv U B c (initState su)). capInv c t"
      and "t \<in> set (crawlStates rv U B c (initState su))"
    then have "int (length (results t)) + int (length (queue t)) \<le> maxPages c * 2"
      by (simp add: capInv_def)
    with length_filter_le_int [of "\<lambda>e. 0 < snd e" "queue t"]
    show "int (length (results t)) + int (length (filter (\<lambda>e. 0 < snd e) (queue t)))
            \<le> maxPages c * 2"
      by linarith
  qed
next
  case False
  then have "\<not> crawlGuard c (initState su)" by (simp add: crawlGuard_def initState_def)
  then have "crawlStates rv U B c (initState su) = [initState su]"
    by (subst crawlStates.simps) simp
  with assms show ?thesis by (simp add: initState_def)
qed

lemma crawlLoop_in_states: "crawlLoop rv U B c s \<in> set (crawlStates rv U B c s)"
  unfolding crawlLoop_last by (rule last_in_set) (rule crawlStates_nonempty)

lemma finalB_eval: "length (results finalB) = 1 \<and> queue finalB = [(''http://a.io/p'', 1)]"
  unfolding finalB_def by code_simp

lemma rootPage_expand:
  "expandLinks Rev1 URL_ref (envOf ''http://a.io/'' (optsOf 1 1) ''a.io'') (linksOf rootPage) ''http://a.io/''
     = Some [''http://a.io/p'', ''http://a.io/q?x=1'', ''http://a.io/t'']"
  by code_simp

text \<open>
  The first revision never returns a URL whose path ends in one of the four extensions;
  the second never returns a string that ends in one of its three.
\<close>

lemma endsWith_iff: "endsWith s p = (\<exists>pre. s = pre @ p)"
proof
  assume "endsWith s p"
  then have "s = take (length s - length p) s @ p"
    by (metis append_take_drop_id endsWith_def)
  then show "\<exists>pre. s = pre @ p" ..
next
  assume "\<exists>pre. s = pre @ p"
  then show "endsWith s p" by (auto simp: endsWith_def)
qed

lemma endsWith_toLowerCase:
  assumes "endsWith s p" and "toLowerCase p = p"
  shows "endsWith (toLowerCase s) p"
proof -
  from assms(1) obtain pre where "s = pre @ p" unfolding endsWith_iff ..
  then have "toLowerCase s = toLowerCase pre @ p"
    using assms(2) by (simp add: toLowerCase_def)
  then show ?thesis unfolding endsWith_iff ..
qed

lemma lower_exts:
  "toLowerCase ''.png'' = ''.png''" "toLowerCase ''.jpg'' = ''.jpg''"
  "toLowerCase ''.pdf'' = ''.pdf''" "toLowerCase ''.zip'' = ''.zip''"
  by code_simp+

lemma assetPath_lower: "assetPath p \<Longrightarrow> assetPath (toLowerCase p)"
  unfolding assetPath_def using lower_exts by (blast intro: endsWith_toLowerCase)

lemma filterOne_member:
  assumes "x \<in> set (filterOne U cur nb a h acc)"
  shows "x \<in> set acc \<or> (\<exists>obj. U x None = Some obj \<and> \<not> assetPath (pathname obj))"
proof (cases "x \<in> set acc")
  case True
  then show ?thesis ..
next
  case False
  with assms obtain r obj where "U h (Some cur) = Some r" "x = href r" "U x None = Some obj"
    "\<not> assetPath (toLowerCase (pathname obj))"
    by (auto simp: filterOne_def Let_def setAdd_def assetPath_def split: if_splits option.splits)
  then show ?thesis using assetPath_lower by blast
qed

lemma fold_filterOne_member:
  "x \<in> set (fold (filterOne U cur nb a) raw acc) \<Longrightarrow>
     x \<in> set acc \<or> (\<exists>obj. U x None = Some obj \<and> \<not> assetPath (pathname obj))"
proof (induction raw arbitrary: acc)
  case Nil
  then show ?case by simp
next
  case (Cons h raw)
  from Cons.IH [of "filterOne U cur nb a h acc"] Cons.prems
  show ?case using filterOne_member [of x U cur nb a h acc] by auto
qed

lemma filterLinks_rejects_assets:
  assumes "x \<in> set (filterLinks U rawLinks currentUrl baseDomain allowSub)"
  shows "\<exists>obj. U x None = Some obj \<and> \<not> endsWith (pathname obj) ''.png''
           \<and> \<not> endsWith (pathname obj) ''.jpg'' \<and> \<not> endsWith (pathname obj) ''.pdf''
           \<and> \<not> endsWith (pathname obj) ''.zip''"
  using fold_filterOne_member [of x U currentUrl "stripWww baseDomain" allowSub rawLinks "[]"] assms
  by (simp add: filterLinks_def assetPath_def)

lemma filterOne2_member:
  assumes "x \<in> set (filterOne2 U cur nb a h acc)"
  shows "x \<in> set acc \<or> (\<exists>r obj. U h (Some cur) = Some r \<and> U (href r) None = Some obj
                              \<and> x = origin obj @ stripTrailingSlash (pathname obj))"
  using assms
  by (auto simp: filterOne2_def Let_def setAdd_def split: if_splits option.splits)

lemma fold_filterOne2_member:
  "x \<in> set (fold (filterOne2 U cur nb a) raw acc) \<Longrightarrow>
     x \<in> set acc \<or> (\<exists>h \<in> set raw. \<exists>r obj. U h (Some cur) = Some r \<and> U (href r) None = Some obj
                              \<and> x = origin obj @ stripTrailingSlash (pathname obj))"
proof (induction raw arbitrary: acc)
  case Nil
  then show ?case by simp
next
  case (Cons h raw)
  from Cons.IH [of "filterOne2 U cur nb a h acc"] Cons.prems
  show ?case using filterOne2_member [of x U cur nb a h acc] by auto
qed

lemma setAdd_distinct: "distinct acc \<Longrightarrow> distinct (setAdd x acc)"
  by (simp add: setAdd_def)

lemma filterOne2_distinct: "distinct acc \<Longrightarrow> distinct (filterOne2 U cur nb a h acc)"
  by (auto simp: filterOne2_def Let_def setAdd_distinct split: option.splits)

lemma fold_filterOne2_distinct:
  "distinct acc \<Longrightarrow> distinct (fold (filterOne2 U cur nb a) raw acc)"
  by (induction raw arbitrary: acc) (simp_all add: filterOne2_distinct)

lemma set_stripTrailingSlash: "set (stripTrailingSlash s) \<subseteq> set s"
  by (auto simp: stripTrailingSlash_def dest: in_set_butlastD)

text \<open>
  The reference constructor puts no \<^verbatim>\<open>?\<close> and no \<^verbatim>\<open>#\<close> into an origin or a path.
\<close>

lemma plain_append [simp]: "plain (xs @ ys) = (plain xs \<and> plain ys)"
  by (auto simp: plain_def)

lemma plain_Nil [simp]: "plain []"
  by (simp add: plain_def)

lemma plain_subset: "set xs \<subseteq> set ys \<Longrightarrow> plain ys \<Longrightarrow> plain xs"
  by (auto simp: plain_def)

lemma plain_takeWhile_pathEnd: "plain (takeWhile (\<lambda>c. \<not> isPathEnd c) s)"
  by (auto simp: plain_def isPathEnd_def dest: set_takeWhileD)

lemma plain_takeWhile_auth: "plain (takeWhile (\<lambda>c. \<not> isSlash c \<and> \<not> isPathEnd c) s)"
  by (auto simp: plain_def isPathEnd_def dest: set_takeWhileD)

lemma hexChar_mem: "hexChar n \<in> set ''0123456789ABCDEF''"
  unfolding hexChar_def by (rule nth_mem) simp

lemma hexChar_plain: "CHR ''?'' \<noteq> hexChar n \<and> CHR ''#'' \<noteq> hexChar n"
  using hexChar_mem [of n] by auto

lemma plain_pctByte: "plain (pctByte c)"
  using hexChar_plain by (simp add: plain_def pctByte_def)

lemma plain_pctEncode: "plain s \<Longrightarrow> plain (pctEncode enc s)"
proof (induction s)
  case Nil
  show ?case by (simp add: pctEncode_def)
next
  case (Cons c s)
  then have "plain [c]" and "plain (pctEncode enc s)" by (simp_all add: plain_def)
  moreover have "pctEncode enc (c # s) = (if enc c then pctByte c else [c]) @ pctEncode enc s"
    by (simp add: pctEncode_def)
  ultimately show ?case using plain_pctByte [of c] by simp
qed

lemma lowerChar_not:
  assumes "c \<noteq> CHR ''?''" and "c \<noteq> CHR ''#''"
  shows "lowerChar c \<noteq> CHR ''?'' \<and> lowerChar c \<noteq> CHR ''#''"
proof (cases "(65::nat) \<le> of_char c \<and> of_char c \<le> (90::nat)")
  case False
  with assms show ?thesis by (auto simp: lowerChar_def)
next
  case True
  have "char_of (of_char c + (32::nat)) \<noteq> CHR ''?''"
  proof
    assume "char_of (of_char c + (32::nat)) = CHR ''?''"
    then have "(of_char (char_of (of_char c + (32::nat))) :: nat) = of_char CHR ''?''" by simp
    with True show False by simp
  qed
  moreover have "char_of (of_char c + (32::nat)) \<noteq> CHR ''#''"
  proof
    assume "char_of (of_char c + (32::nat)) = CHR ''#''"
    then have "(of_char (char_of (of_char c + (32::nat))) :: nat) = of_char CHR ''#''" by simp
    with True show False by simp
  qed
  ultimately show ?thesis using True by (simp add: lowerChar_def)
qed

lemma plain_Cons: "plain (c # s) = (c \<noteq> CHR ''?'' \<and> c \<noteq> CHR ''#'' \<and> plain s)"
  by (auto simp: plain_def)

lemma plain_map_lowerChar: "plain s \<Longrightarrow> plain (map lowerChar s)"
proof (induction s)
  case Nil
  show ?case by simp
next
  case (Cons c s)
  then have "c \<noteq> CHR ''?''" "c \<noteq> CHR ''#''" "plain (map lowerChar s)"
    by (simp_all add: plain_Cons)
  with lowerChar_not [of c] show ?case by (simp add: plain_Cons)
qed

lemma digitChar_mem: "digitChar d \<in> set ''0123456789''"
  unfolding digitChar_def by (rule nth_mem) simp

lemma plain_digitChar: "plain [digitChar d]"
  using digitChar_mem [of d] by (auto simp: plain_def)

lemma plain_showNumber: "plain (showNumber n)"
proof (induction n rule: showNumber.induct)
  case (1 n)
  show ?case
  proof (cases "n < 10")
    case True
    with plain_digitChar [of n] show ?thesis by (subst showNumber.simps) simp
  next
    case False
    with 1 have "plain (showNumber (n div 10))" by simp
    with False plain_digitChar [of "n mod 10"] show ?thesis
      by (subst showNumber.simps) simp
  qed
qed

lemma plain_splitSlash: "plain s \<Longrightarrow> list_all plain (splitSlash s)"
proof (induction s)
  case Nil
  show ?case by (simp add: splitSlash_def)
next
  case (Cons c s)
  from Cons.prems have "plain s" and c: "plain [c]" by (simp_all add: plain_def)
  with Cons.IH have ih: "list_all plain (splitSlash s)" by simp
  have step: "splitSlash (c # s)
        = (if isSlash c then [] # splitSlash s
           else (case splitSlash s of [] \<Rightarrow> [[c]] | h # t \<Rightarrow> (c # h) # t))"
    by (simp add: splitSlash_def)
  from ih c show ?case unfolding step by (auto simp: plain_def list_all_iff split: list.splits)
qed

lemma list_all_butlast: "list_all P xs \<Longrightarrow> list_all P (butlast xs)"
  by (auto simp: list_all_iff dest: in_set_butlastD)

lemma plain_pathState:
  "list_all plain segsIn \<Longrightarrow> list_all plain path \<Longrightarrow> list_all plain (pathState segsIn path)"
proof (induction segsIn path rule: pathState.induct)
  case (1 path)
  then show ?case by simp
next
  case (2 seg path)
  then show ?case by (simp add: list_all_butlast plain_pctEncode)
next
  case (3 seg v va path)
  then show ?case by (simp add: list_all_butlast plain_pctEncode)
qed

lemma plain_pathString: "list_all plain segs \<Longrightarrow> plain (pathString segs)"
  by (induction segs) (simp_all add: pathString_def, simp add: plain_def)

lemma plain_dotted: "plain (dotted v)"
  by (simp add: dotted_def plain_showNumber plain_Cons)

lemma plain_ipv4Parse: "ipv4Parse h = Some x \<Longrightarrow> plain x"
  by (auto simp: ipv4Parse_def Let_def plain_dotted split: if_splits option.splits)

lemma forbidden_pathEnd: "\<not> forbiddenDomain c \<Longrightarrow> c \<noteq> CHR ''?'' \<and> c \<noteq> CHR ''#''"
  by (auto simp: forbiddenDomain_def Let_def)

lemma plain_parseHost: "parseHost t = Some h \<Longrightarrow> plain h"
proof -
  assume a: "parseHost t = Some h"
  then have nf: "\<not> list_ex forbiddenDomain t"
    by (auto simp: parseHost_def Let_def split: if_splits)
  then have "plain t" using forbidden_pathEnd by (auto simp: plain_def list_ex_iff)
  then have "plain (map lowerChar t)" by (rule plain_map_lowerChar)
  with a show ?thesis
    by (auto simp: parseHost_def Let_def plain_ipv4Parse split: if_splits)
qed

lemma plain_parsePort: "parsePort sch t = Some port \<Longrightarrow> plain (optPrefix CHR '':'' port)"
proof -
  have c: "plain (CHR '':'' # x) = plain x" for x by (simp add: plain_def)
  assume "parsePort sch t = Some port"
  then show ?thesis
    by (auto simp: parsePort_def Let_def optPrefix_def plain_showNumber c split: if_splits)
qed

lemma plain_splitRef: "plain (fst (splitRef s))"
  by (simp add: splitRef_def plain_takeWhile_pathEnd)

lemma plain_withReference:
  assumes "plain sch" and "plain host" and "plain (optPrefix CHR '':'' port)"
    and "list_all plain path0"
  shows "partsPlain (withReference sch user pass host port path0 t)"
proof -
  obtain pathText q f where r: "splitRef t = (pathText, q, f)" by (cases "splitRef t") auto
  with plain_splitRef [of t] have "plain pathText" by simp
  then have "list_all plain (pathState (splitSlash pathText) path0)"
    using assms(4) by (intro plain_pathState plain_splitSlash)
  with assms(1-3) r show ?thesis by (simp add: withReference_def)
qed

lemma plain_parseAuthority:
  assumes "parseAuthority sch t = Some p" and "plain sch"
  shows "partsPlain p"
proof -
  from assms(1) obtain hostText portText host port user pass afterSlash where
    h: "parseHost hostText = Some host" and pt: "parsePort sch portText = Some port"
    and p: "p = withReference sch user pass host port [] afterSlash"
    unfolding parseAuthority_def Let_def by (simp split: option.splits) blast
  from h have "plain host" by (rule plain_parseHost)
  moreover from pt have "plain (optPrefix CHR '':'' port)" by (rule plain_parsePort)
  ultimately show ?thesis unfolding p using assms(2) by (intro plain_withReference) simp_all
qed

lemma plain_resolveRelative:
  assumes "resolveRelative b s = Some p" and "partsPlain b"
  shows "partsPlain p"
proof (cases b)
  case (OpaquePath sch p' bq bf)
  with assms show ?thesis by (cases s) (auto split: if_splits)
next
  case b: (Special sch user pass host port segs bq bf)
  with assms(2) have pl: "plain sch" "plain host" "plain (optPrefix CHR '':'' port)"
    "list_all plain segs" by simp_all
  show ?thesis
  proof (cases s)
    case Nil
    with assms(1) b pl show ?thesis by auto
  next
    case (Cons c r)
    consider (auth) "isSlash c" "list_ex isSlash (take 1 r)"
      | (abs) "isSlash c" "\<not> list_ex isSlash (take 1 r)"
      | (frag) "\<not> isSlash c" "c = CHR ''#''"
      | (query) "\<not> isSlash c" "c \<noteq> CHR ''#''" "c = CHR ''?''"
      | (rel) "\<not> isSlash c" "c \<noteq> CHR ''#''" "c \<noteq> CHR ''?''"
      by blast
    then show ?thesis
    proof cases
      case auth
      with assms(1) b Cons have "parseAuthority sch (dropWhile isSlash s) = Some p" by simp
      then show ?thesis using pl(1) by (rule plain_parseAuthority)
    next
      case abs
      with assms(1) b Cons have "p = withReference sch user pass host port [] r" by simp
      with pl show ?thesis by (simp add: plain_withReference)
    next
      case frag
      with assms(1) b Cons pl show ?thesis by auto
    next
      case query
      with assms(1) b Cons pl show ?thesis by (auto split: prod.splits)
    next
      case rel
      with assms(1) b Cons have "p = withReference sch user pass host port (butlast segs) s"
        by simp
      with pl show ?thesis by (simp add: plain_withReference list_all_butlast)
    qed
  qed
qed

lemma plain_specialScheme: "specialScheme sch \<Longrightarrow> plain sch"
  by (auto simp: specialScheme_def plain_def)

lemma plain_parseParts:
  assumes "parseParts base s = Some p" and "\<And>b. base = Some b \<Longrightarrow> partsPlain b"
  shows "partsPlain p"
proof (cases "schemeOf s")
  case None
  with assms(1) obtain b where "base = Some b" "resolveRelative b s = Some p"
    by (auto simp: parseParts_def split: option.splits)
  with assms(2) show ?thesis by (blast intro: plain_resolveRelative)
next
  case (Some sr)
  obtain sch rest where sr: "sr = (sch, rest)" by (cases sr)
  show ?thesis
  proof (cases "specialScheme sch")
    case True
    show ?thesis
    proof (cases "sameScheme base sch \<and> take 2 rest \<noteq> ''//''")
      case True
      with assms(1) Some sr \<open>specialScheme sch\<close>
      obtain b where "base = Some b" "resolveRelative b rest = Some p"
        by (auto simp: parseParts_def split: option.splits)
      with assms(2) show ?thesis by (blast intro: plain_resolveRelative)
    next
      case False
      with assms(1) Some sr \<open>specialScheme sch\<close>
      have "parseAuthority sch (dropWhile isSlash rest) = Some p"
        by (simp add: parseParts_def)
      then show ?thesis using plain_specialScheme [OF True] by (rule plain_parseAuthority)
    qed
  next
    case False
    with assms(1) Some sr obtain pathText q f where
      r: "splitRef rest = (pathText, q, f)"
      and p: "p = OpaquePath sch (pctEncode c0ControlSet pathText)
                    (map_option (pctEncode querySet) q) (map_option (pctEncode fragmentSet) f)"
      by (cases "splitRef rest") (auto simp: parseParts_def split: if_splits)
    from r plain_splitRef [of rest] have "plain pathText" by simp
    then show ?thesis unfolding p by (simp add: plain_pctEncode)
  qed
qed

lemma plain_serialize:
  assumes "partsPlain p"
  shows "plain (origin (serialize p)) \<and> plain (pathname (serialize p))"
proof (cases p)
  case (Special sch user pass host port segs q f)
  from assms Special show ?thesis by (simp add: Let_def plain_pathString plain_Cons)
next
  case (OpaquePath sch p' q f)
  from assms OpaquePath show ?thesis by (simp add: plain_Cons)
qed

lemma URL_ref_clean:
  "\<forall>i b obj. URL_ref i b = Some obj \<longrightarrow>
          CHR ''?'' \<notin> set (origin obj) \<and> CHR ''?'' \<notin> set (pathname obj)
          \<and> CHR ''#'' \<notin> set (origin obj) \<and> CHR ''#'' \<notin> set (pathname obj)"
proof (intro allI impI)
  fix i b obj
  assume a: "URL_ref i b = Some obj"
  have "\<exists>p. partsPlain p \<and> obj = serialize p"
  proof (cases b)
    case None
    with a obtain p where p: "parseParts None (cleanInput i) = Some p" and o: "obj = serialize p"
      by (auto simp: URL_ref_def)
    from plain_parseParts [OF p] have "partsPlain p" by simp
    with o show ?thesis by blast
  next
    case (Some bs)
    with a obtain bp p where bp: "parseParts None (cleanInput bs) = Some bp"
      and p: "parseParts (Some bp) (cleanInput i) = Some p" and o: "obj = serialize p"
      by (auto simp: URL_ref_def split: option.splits)
    from plain_parseParts [OF bp] have "partsPlain bp" by simp
    with plain_parseParts [OF p] have "partsPlain p" by simp
    with o show ?thesis by blast
  qed
  then obtain p where "partsPlain p" "obj = serialize p" by blast
  with plain_serialize [of p]
  show "CHR ''?'' \<notin> set (origin obj) \<and> CHR ''?'' \<notin> set (pathname obj)
          \<and> CHR ''#'' \<notin> set (origin obj) \<and> CHR ''#'' \<notin> set (pathname obj)"
    by (simp add: plain_def)
qed

lemma URL_ref_q:
  "URL_ref ''http://a.io/q?x=1'' (Some ''http://a.io/'') = Some (urlQ ''?x=1'')"
  "URL_ref ''http://a.io/q?x=1'' None = Some (urlQ ''?x=1'')"
  "URL_ref ''http://a.io/q#top'' (Some ''http://a.io/'') = Some (urlQ ''#top'')"
  "URL_ref ''http://a.io/q#top'' None = Some (urlQ ''#top'')"
  unfolding urlQ_def by code_simp+

lemma filter2_q:
  "filterLinks2 URL_ref [''http://a.io/q?x=1'', ''http://a.io/q#top'', ''http://a.io/q/'']
     ''http://a.io/'' ''a.io'' False = [''http://a.io/q'']"
  by code_simp

section \<open>The claims\<close>

text \<open>
  The theorems hold for both revisions (\<open>rv\<close>), for every URL constructor \<open>U\<close> and every
  behaviour \<open>B\<close> of the browser, unless a statement names a particular one. The source takes
  the start URL as a string and the bounds as numbers; where a statement needs the start URL
  to parse or a bound to be non-negative, that is a hypothesis.
\<close>

text \<open>
  C1. For every start URL and options, the result of \<^verbatim>\<open>crawlUrl\<close> has at most
  \<^verbatim>\<open>maxPages\<close> pages, however many links are discovered or queued. \<^verbatim>\<open>maxPages\<close> is a
  count: it is taken non-negative (for a negative bound the loop does not run and the
  result has no page).
\<close>

theorem C1_page_bound:
  assumes "crawlUrl rv U B su opts = Inr r" and "0 \<le> maxPagesOf opts"
  shows "int (length (pages r)) \<le> maxPagesOf opts"
proof -
  from crawlUrl_Inr [OF assms(1)] obtain p where
    "U su None = Some p"
    and r: "r = resultOf (crawlLoop rv U B (envOf su opts (hostname p)) (initState su))" by blast
  have "int (length (results (initState su))) \<le> maxPages (envOf su opts (hostname p))"
    using assms(2) by (simp add: initState_def envOf_def)
  from crawlLoop_results_bound [OF this] show ?thesis
    by (simp add: r resultOf_def envOf_def)
qed

theorem C1_page_bound_witness:
  "\<exists>r. crawlUrl Rev1 URL_ref siteA ''http://a.io/'' (optsOf 2 2) = Inr r
       \<and> length (pages r) = 2
       \<and> (0::int) \<le> maxPagesOf (optsOf 2 2)
       \<and> int (length (pages r)) \<le> maxPagesOf (optsOf 2 2)"
proof -
  define r where "r = resultOf (crawlLoop Rev1 URL_ref siteA (envOf ''http://a.io/'' (optsOf 2 2) ''a.io'')
                                 (initState ''http://a.io/''))"
  have run: "crawlUrl Rev1 URL_ref siteA ''http://a.io/'' (optsOf 2 2) = Inr r"
    using crawlUrl_parsed [where U = URL_ref and su = "''http://a.io/''", OF URL_ref_a_io]
    by (simp add: r_def)
  have len: "length (pages r) = 2" unfolding r_def by code_simp
  have mp: "(0::int) \<le> maxPagesOf (optsOf 2 2)" by (simp add: maxPagesOf_def optsOf_def)
  from C1_page_bound [OF run mp] run len mp show ?thesis by blast
qed

text \<open>
  C2. A page dequeued at depth equal to \<^verbatim>\<open>maxDepth\<close> is fetched and appended to the
  results, the queue loses only the dequeued entry and the link count does not change; and
  with \<^verbatim>\<open>maxDepth = 0\<close>, when the fetch of the start URL succeeds, \<^verbatim>\<open>crawlUrl\<close>
  returns exactly that one page, whatever links it carries. The start URL is fetched only
  when \<^verbatim>\<open>maxPages\<close> is at least 1.
\<close>

theorem C2_depth_limit:
  "(queue s = (u, d) # rest \<and> u \<notin> visited s \<and> int d = maxDepth c
      \<and> scrapeUrl B (length (fetches s)) u (scrapeOptionsOf (options c)) = Inr r
    \<longrightarrow> crawlStep rv U B c s
          = s\<lparr>visited := insert u (visited s), queue := rest,
               fetches := fetches s @ [(u, d)], results := results s @ [r]\<rparr>)
   \<and> (co_maxDepth opts = Some 0 \<and> 0 < maxPagesOf opts \<and> U su None = Some p
      \<and> scrapeUrl B 0 su (scrapeOptionsOf opts) = Inr x
    \<longrightarrow> crawlUrl rv U B su opts
          = Inr \<lparr>pages = [x], stats = \<lparr>pagesScraped = 1, linksDiscovered = 0\<rparr>\<rparr>
        \<and> url x = su)"
proof (intro conjI impI)
  assume "queue s = (u, d) # rest \<and> u \<notin> visited s \<and> int d = maxDepth c
      \<and> scrapeUrl B (length (fetches s)) u (scrapeOptionsOf (options c)) = Inr r"
  then show "crawlStep rv U B c s
          = s\<lparr>visited := insert u (visited s), queue := rest,
               fetches := fetches s @ [(u, d)], results := results s @ [r]\<rparr>"
    by (simp add: crawlStep_def)
next
  assume h: "co_maxDepth opts = Some 0 \<and> 0 < maxPagesOf opts \<and> U su None = Some p
      \<and> scrapeUrl B 0 su (scrapeOptionsOf opts) = Inr x"
  define c where "c = envOf su opts (hostname p)"
  define s1 where "s1 = \<lparr>visited = {su}, queue = [], results = [x], discovered = 0,
                          fetches = [(su, 0::nat)]\<rparr>"
  have g0: "crawlGuard c (initState su)"
    using h by (simp add: crawlGuard_def c_def envOf_def initState_def)
  have st: "crawlStep rv U B c (initState su) = s1"
    using h by (simp add: crawlStep_def c_def envOf_def initState_def maxDepthOf_def s1_def)
  have g1: "\<not> crawlGuard c s1" by (simp add: crawlGuard_def s1_def)
  have "crawlLoop rv U B c (initState su) = s1"
    using crawlLoop_unfold [OF g0, of rv U B] crawlLoop_stop [OF g1, of rv U B] st by simp
  with h crawlUrl_parsed [of U su p rv B opts]
  show "crawlUrl rv U B su opts
          = Inr \<lparr>pages = [x], stats = \<lparr>pagesScraped = 1, linksDiscovered = 0\<rparr>\<rparr>"
    by (simp add: c_def resultOf_def s1_def)
  from h show "url x = su" by (blast dest: scrapeUrl_url)
qed

theorem C2_depth_limit_witness:
  "crawlStep Rev1 URL_ref siteA (envOf ''http://a.io/'' (optsOf 5 0) ''a.io'') (initState ''http://a.io/'')
     = (initState ''http://a.io/'')\<lparr>visited := {''http://a.io/''}, queue := [],
          fetches := [(''http://a.io/'', 0)], results := [rootPage]\<rparr>
   \<and> crawlUrl Rev1 URL_ref siteA ''http://a.io/'' (optsOf 5 0)
       = Inr \<lparr>pages = [rootPage], stats = \<lparr>pagesScraped = 1, linksDiscovered = 0\<rparr>\<rparr>
   \<and> length (linksOf rootPage) = 5"
proof -
  let ?c = "envOf ''http://a.io/'' (optsOf 5 0) ''a.io''"
  let ?s = "initState ''http://a.io/''"
  have a: "queue ?s = (''http://a.io/'', 0) # [] \<and> ''http://a.io/'' \<notin> visited ?s
           \<and> int 0 = maxDepth ?c
           \<and> scrapeUrl siteA (length (fetches ?s)) ''http://a.io/'' (scrapeOptionsOf (options ?c)) = Inr rootPage"
    using siteA_root [of 5 0]
    by (simp add: initState_def envOf_def maxDepthOf_def optsOf_def)
  have b: "co_maxDepth (optsOf 5 0) = Some 0 \<and> 0 < maxPagesOf (optsOf 5 0)
           \<and> URL_ref ''http://a.io/'' None
              = Some \<lparr>href = ''http://a.io/'', origin = ''http://a.io'', hostname = ''a.io'', pathname = ''/''\<rparr>
           \<and> scrapeUrl siteA 0 ''http://a.io/'' (scrapeOptionsOf (optsOf 5 0)) = Inr rootPage"
    using siteA_root [of 5 0] URL_ref_a_io by (simp add: optsOf_def maxPagesOf_def)
  have c: "length (linksOf rootPage) = 5" by (simp add: linksOf_def rootPage_def)
  from C2_depth_limit [where s = ?s and u = "''http://a.io/''" and d = 0 and rest = "[]"
         and c = ?c and B = siteA and r = rootPage and rv = Rev1 and U = URL_ref
         and opts = "optsOf 5 0" and su = "''http://a.io/''" and x = rootPage] a b c
  show ?thesis by (simp add: initState_def)
qed

text \<open>
  C3. The scope filter on the eight example links, with current URL
  \<^verbatim>\<open>https://example.com/start\<close> and base domain \<^verbatim>\<open>example.com\<close>, yields exactly
  \<^verbatim>\<open>https://example.com/a\<close>, \<^verbatim>\<open>https://www.example.com/b\<close> and
  \<^verbatim>\<open>https://example.com/relative\<close> without subdomains, and these three plus
  \<^verbatim>\<open>https://blog.example.com/c\<close> with subdomains allowed; in both revisions. The
  constructor resolves \<^verbatim>\<open>#frag\<close> to \<^verbatim>\<open>https://example.com/start#frag\<close>, which is in scope,
  so that link is absent because the filter skips it before resolving; \<^verbatim>\<open>mailto:x@y.com\<close>
  parses to a URL with an empty host.
\<close>

theorem C3_scope_filter_example:
  "set (filterLinks URL_ref
          [''https://example.com/a'', ''https://www.example.com/b'', ''https://blog.example.com/c'',
           ''https://other.com/d'', ''/relative'', ''#frag'', ''mailto:x@y.com'',
           ''https://example.com/img.png'']
          ''https://example.com/start'' ''example.com'' False)
     = {''https://example.com/a'', ''https://www.example.com/b'', ''https://example.com/relative''}
   \<and> set (filterLinks URL_ref
          [''https://example.com/a'', ''https://www.example.com/b'', ''https://blog.example.com/c'',
           ''https://other.com/d'', ''/relative'', ''#frag'', ''mailto:x@y.com'',
           ''https://example.com/img.png'']
          ''https://example.com/start'' ''example.com'' True)
     = {''https://example.com/a'', ''https://www.example.com/b'', ''https://example.com/relative''}
        \<union> {''https://blog.example.com/c''}
   \<and> set (filterLinks2 URL_ref
          [''https://example.com/a'', ''https://www.example.com/b'', ''https://blog.example.com/c'',
           ''https://other.com/d'', ''/relative'', ''#frag'', ''mailto:x@y.com'',
           ''https://example.com/img.png'']
          ''https://example.com/start'' ''example.com'' False)
     = {''https://example.com/a'', ''https://www.example.com/b'', ''https://example.com/relative''}
   \<and> set (filterLinks2 URL_ref
          [''https://example.com/a'', ''https://www.example.com/b'', ''https://blog.example.com/c'',
           ''https://other.com/d'', ''/relative'', ''#frag'', ''mailto:x@y.com'',
           ''https://example.com/img.png'']
          ''https://example.com/start'' ''example.com'' True)
     = {''https://example.com/a'', ''https://www.example.com/b'', ''https://example.com/relative''}
        \<union> {''https://blog.example.com/c''}
   \<and> URL_ref ''#frag'' (Some ''https://example.com/start'')
     = Some \<lparr>href = ''https://example.com/start#frag'', origin = ''https://example.com'',
             hostname = ''example.com'', pathname = ''/start''\<rparr>
   \<and> URL_ref ''mailto:x@y.com'' (Some ''https://example.com/start'')
     = Some \<lparr>href = ''mailto:x@y.com'', origin = ''null'', hostname = [],
             pathname = ''x@y.com''\<rparr>"
proof -
  let ?raw = "[''https://example.com/a'', ''https://www.example.com/b'', ''https://blog.example.com/c'',
           ''https://other.com/d'', ''/relative'', ''#frag'', ''mailto:x@y.com'',
           ''https://example.com/img.png'']"
  have a: "filterLinks URL_ref ?raw ''https://example.com/start'' ''example.com'' False
           = [''https://example.com/a'', ''https://www.example.com/b'', ''https://example.com/relative'']"
    by code_simp
  have b: "filterLinks URL_ref ?raw ''https://example.com/start'' ''example.com'' True
           = [''https://example.com/a'', ''https://www.example.com/b'', ''https://blog.example.com/c'',
              ''https://example.com/relative'']"
    by code_simp
  have c: "filterLinks2 URL_ref ?raw ''https://example.com/start'' ''example.com'' False
           = [''https://example.com/a'', ''https://www.example.com/b'', ''https://example.com/relative'']"
    by code_simp
  have d: "filterLinks2 URL_ref ?raw ''https://example.com/start'' ''example.com'' True
           = [''https://example.com/a'', ''https://www.example.com/b'', ''https://blog.example.com/c'',
              ''https://example.com/relative'']"
    by code_simp
  have e: "URL_ref ''#frag'' (Some ''https://example.com/start'')
     = Some \<lparr>href = ''https://example.com/start#frag'', origin = ''https://example.com'',
             hostname = ''example.com'', pathname = ''/start''\<rparr>"
    by code_simp
  have f: "URL_ref ''mailto:x@y.com'' (Some ''https://example.com/start'')
     = Some \<lparr>href = ''mailto:x@y.com'', origin = ''null'', hostname = [],
             pathname = ''x@y.com''\<rparr>"
    by code_simp
  show ?thesis unfolding a b c d e f by auto
qed

text \<open>
  C4. In every result of \<^verbatim>\<open>crawlUrl\<close> the \<^verbatim>\<open>url\<close> fields of the pages are pairwise
  distinct, and no URL string is fetched twice: a URL enters \<^verbatim>\<open>visited\<close> before its
  fetch and a later dequeue of the same string is discarded.
\<close>

theorem C4_no_duplicates:
  assumes "crawlRun rv U B su opts = Inr s"
  shows "crawlUrl rv U B su opts = Inr (resultOf s)
         \<and> distinct (map url (pages (resultOf s)))
         \<and> distinct (map fst (fetches s))"
proof -
  from crawlRun_Inr [OF assms] obtain p where
    "U su None = Some p"
    and s: "s = crawlLoop rv U B (envOf su opts (hostname p)) (initState su)" by blast
  have "visitInv s" unfolding s by (rule visitInv_loop)
  with assms show ?thesis
    by (simp add: visitInv_def resultOf_def crawlUrl_def)
qed

theorem C4_no_duplicates_witness:
  "crawlUrl Rev1 URL_ref siteA ''http://a.io/'' (optsOf 10 2) = Inr (resultOf finalA)
   \<and> map url (pages (resultOf finalA))
       = [''http://a.io/'', ''http://a.io/q?x=1'', ''http://a.io/t'', ''http://a.io/r'']
   \<and> distinct (map url (pages (resultOf finalA)))
   \<and> distinct (map fst (fetches finalA))"
  using C4_no_duplicates [OF runA] finalA_urls by (simp add: resultOf_def)

text \<open>
  C5. A failure of \<^verbatim>\<open>scrapeUrl\<close> for a dequeued URL does not abort the crawl: the
  iteration leaves the pages as they were, and the loop goes on from the rest of the queue;
  the crawl returns a result whenever the start URL parses, it ends only with an empty
  queue or with \<^verbatim>\<open>maxPages\<close> pages, its pages are exactly the successful fetches in fetch
  order, and \<^verbatim>\<open>pagesScraped\<close> is their number.
\<close>

theorem C5_failure_skipped:
  "(queue s = (u, d) # rest \<and> u \<notin> visited s \<and> int d \<le> maxDepth c
      \<and> scrapeUrl B (length (fetches s)) u (scrapeOptionsOf (options c)) = Inl e
    \<longrightarrow> crawlStep rv U B c s
          = s\<lparr>visited := insert u (visited s), queue := rest, fetches := fetches s @ [(u, d)]\<rparr>
        \<and> (crawlGuard c s
           \<longrightarrow> crawlLoop rv U B c s
               = crawlLoop rv U B c
                   (s\<lparr>visited := insert u (visited s), queue := rest,
                      fetches := fetches s @ [(u, d)]\<rparr>)))
   \<and> (U su None = Some p
    \<longrightarrow> (\<exists>t. crawlRun rv U B su opts = Inr t
             \<and> crawlUrl rv U B su opts = Inr (resultOf t)
             \<and> pages (resultOf t) = fetchedPages B opts (fetches t)
             \<and> pagesScraped (stats (resultOf t)) = length (fetchedPages B opts (fetches t))
             \<and> (queue t = [] \<or> maxPagesOf opts \<le> int (length (pages (resultOf t))))))"
proof (intro conjI impI)
  assume a: "queue s = (u, d) # rest \<and> u \<notin> visited s \<and> int d \<le> maxDepth c
      \<and> scrapeUrl B (length (fetches s)) u (scrapeOptionsOf (options c)) = Inl e"
  then show st: "crawlStep rv U B c s
          = s\<lparr>visited := insert u (visited s), queue := rest, fetches := fetches s @ [(u, d)]\<rparr>"
    by (simp add: crawlStep_def)
  assume "crawlGuard c s"
  from crawlLoop_unfold [OF this, of rv U B]
  show "crawlLoop rv U B c s
               = crawlLoop rv U B c
                   (s\<lparr>visited := insert u (visited s), queue := rest,
                      fetches := fetches s @ [(u, d)]\<rparr>)"
    unfolding st .
next
  assume p: "U su None = Some p"
  let ?c = "envOf su opts (hostname p)"
  let ?t = "crawlLoop rv U B ?c (initState su)"
  from logInv_loop [where U = U and su = su and rv = rv and B = B and opts = opts, OF p]
  have r: "results ?t = fetchedPages B opts (fetches ?t)"
    by (simp add: logInv_def envOf_def)
  have "\<not> crawlGuard ?c ?t" by (rule crawlLoop_exit)
  then have x: "queue ?t = [] \<or> maxPagesOf opts \<le> int (length (results ?t))"
    by (auto simp: crawlGuard_def envOf_def)
  from r x crawlUrl_parsed [where U = U and su = su and rv = rv and B = B and opts = opts, OF p]
  show "\<exists>t. crawlRun rv U B su opts = Inr t
             \<and> crawlUrl rv U B su opts = Inr (resultOf t)
             \<and> pages (resultOf t) = fetchedPages B opts (fetches t)
             \<and> pagesScraped (stats (resultOf t)) = length (fetchedPages B opts (fetches t))
             \<and> (queue t = [] \<or> maxPagesOf opts \<le> int (length (pages (resultOf t))))"
    by (simp add: resultOf_def)
qed

theorem C5_failure_skipped_witness:
  "crawlStep Rev1 URL_ref siteA (envOf ''http://a.io/'' (optsOf 10 2) ''a.io'') (initState ''http://a.io/'')
     = stateP
   \<and> crawlStep Rev1 URL_ref siteA (envOf ''http://a.io/'' (optsOf 10 2) ''a.io'') stateP
     = stateP\<lparr>visited := {''http://a.io/p'', ''http://a.io/''},
              queue := [(''http://a.io/q?x=1'', 1), (''http://a.io/t'', 1)],
              fetches := [(''http://a.io/'', 0), (''http://a.io/p'', 1)]\<rparr>
   \<and> crawlLoop Rev1 URL_ref siteA (envOf ''http://a.io/'' (optsOf 10 2) ''a.io'') stateP
     = crawlLoop Rev1 URL_ref siteA (envOf ''http://a.io/'' (optsOf 10 2) ''a.io'')
         (stateP\<lparr>visited := {''http://a.io/p'', ''http://a.io/''},
                  queue := [(''http://a.io/q?x=1'', 1), (''http://a.io/t'', 1)],
                  fetches := [(''http://a.io/'', 0), (''http://a.io/p'', 1)]\<rparr>)
   \<and> (\<exists>t. crawlRun Rev1 URL_ref siteA ''http://a.io/'' (optsOf 10 2) = Inr t
          \<and> crawlUrl Rev1 URL_ref siteA ''http://a.io/'' (optsOf 10 2) = Inr (resultOf t)
          \<and> fetches t = [(''http://a.io/'', 0), (''http://a.io/p'', 1), (''http://a.io/q?x=1'', 1),
                          (''http://a.io/t'', 1), (''http://a.io/r'', 2)]
          \<and> scrapeUrl siteA 1 ''http://a.io/p'' (scrapeOptionsOf (optsOf 10 2))
              = Inl (ScrapeError ''timeout'')
          \<and> map url (pages (resultOf t))
              = [''http://a.io/'', ''http://a.io/q?x=1'', ''http://a.io/t'', ''http://a.io/r'']
          \<and> pages (resultOf t) = fetchedPages siteA (optsOf 10 2) (fetches t)
          \<and> pagesScraped (stats (resultOf t)) = 4
          \<and> queue t = [])"
proof -
  let ?c = "envOf ''http://a.io/'' (optsOf 10 2) ''a.io''"
  note inst = C5_failure_skipped [where s = stateP and u = "''http://a.io/p''" and d = 1
      and rest = "[(''http://a.io/q?x=1'', 1), (''http://a.io/t'', 1)]" and c = ?c and B = siteA
      and e = "ScrapeError ''timeout''" and rv = Rev1 and U = URL_ref
      and su = "''http://a.io/''" and opts = "optsOf 10 2"
      and p = "\<lparr>href = ''http://a.io/'', origin = ''http://a.io'', hostname = ''a.io'', pathname = ''/''\<rparr>"]
  have pre: "queue stateP = (''http://a.io/p'', 1) # [(''http://a.io/q?x=1'', 1), (''http://a.io/t'', 1)]
             \<and> ''http://a.io/p'' \<notin> visited stateP \<and> int 1 \<le> maxDepth ?c
             \<and> scrapeUrl siteA (length (fetches stateP)) ''http://a.io/p'' (scrapeOptionsOf (options ?c))
                 = Inl (ScrapeError ''timeout'')"
    by (simp add: stateP_def envOf_def maxDepthOf_def optsOf_def siteA_p)
  have g: "crawlGuard ?c stateP"
    by (simp add: crawlGuard_def stateP_def envOf_def maxPagesOf_def optsOf_def)
  have ins: "insert ''http://a.io/p'' (visited stateP) = {''http://a.io/p'', ''http://a.io/''}"
    and app: "fetches stateP @ [(''http://a.io/p'', 1)] = [(''http://a.io/'', 0), (''http://a.io/p'', 1)]"
    by (simp_all add: stateP_def)
  from inst pre have step: "crawlStep Rev1 URL_ref siteA ?c stateP
     = stateP\<lparr>visited := {''http://a.io/p'', ''http://a.io/''},
              queue := [(''http://a.io/q?x=1'', 1), (''http://a.io/t'', 1)],
              fetches := [(''http://a.io/'', 0), (''http://a.io/p'', 1)]\<rparr>"
    unfolding ins app by blast
  from inst pre g have loop: "crawlLoop Rev1 URL_ref siteA ?c stateP
     = crawlLoop Rev1 URL_ref siteA ?c
         (stateP\<lparr>visited := {''http://a.io/p'', ''http://a.io/''},
                  queue := [(''http://a.io/q?x=1'', 1), (''http://a.io/t'', 1)],
                  fetches := [(''http://a.io/'', 0), (''http://a.io/p'', 1)]\<rparr>)"
    unfolding ins app by blast
  from inst URL_ref_a_io obtain t where
    t: "crawlRun Rev1 URL_ref siteA ''http://a.io/'' (optsOf 10 2) = Inr t"
    and u: "crawlUrl Rev1 URL_ref siteA ''http://a.io/'' (optsOf 10 2) = Inr (resultOf t)"
    and pg: "pages (resultOf t) = fetchedPages siteA (optsOf 10 2) (fetches t)"
    by blast
  from t runA have tA: "t = finalA" by simp
  have n4: "pagesScraped (stats (resultOf t)) = 4"
    using finalA_count by (simp add: tA resultOf_def)
  have urls: "map url (pages (resultOf t))
              = [''http://a.io/'', ''http://a.io/q?x=1'', ''http://a.io/t'', ''http://a.io/r'']"
    using finalA_urls by (simp add: tA resultOf_def)
  have run: "\<exists>t. crawlRun Rev1 URL_ref siteA ''http://a.io/'' (optsOf 10 2) = Inr t
          \<and> crawlUrl Rev1 URL_ref siteA ''http://a.io/'' (optsOf 10 2) = Inr (resultOf t)
          \<and> fetches t = [(''http://a.io/'', 0), (''http://a.io/p'', 1), (''http://a.io/q?x=1'', 1),
                          (''http://a.io/t'', 1), (''http://a.io/r'', 2)]
          \<and> scrapeUrl siteA 1 ''http://a.io/p'' (scrapeOptionsOf (optsOf 10 2))
              = Inl (ScrapeError ''timeout'')
          \<and> map url (pages (resultOf t))
              = [''http://a.io/'', ''http://a.io/q?x=1'', ''http://a.io/t'', ''http://a.io/r'']
          \<and> pages (resultOf t) = fetchedPages siteA (optsOf 10 2) (fetches t)
          \<and> pagesScraped (stats (resultOf t)) = 4
          \<and> queue t = []"
    using t u pg n4 urls finalA_fetches finalA_queue siteA_p by (simp add: tA)
  from stateP_reached step loop run show ?thesis by blast
qed

text \<open>
  C6. The scope filter is to reject every link whose path ends in \<^verbatim>\<open>.png\<close>, \<^verbatim>\<open>.jpg\<close>,
  \<^verbatim>\<open>.pdf\<close> or \<^verbatim>\<open>.zip\<close>. The first revision does (\<open>filterLinks_rejects_assets\<close>). The
  second revision tests three extensions only: on the single link
  \<^verbatim>\<open>https://example.com/archive.zip\<close>, whose path ends in \<^verbatim>\<open>.zip\<close>, it returns the link,
  where the first revision returns nothing.
\<close>

theorem C6_zip_not_rejected:
  "filterLinks2 URL_ref [''https://example.com/archive.zip''] ''https://example.com/start''
      ''example.com'' False
     = [''https://example.com/archive.zip'']
   \<and> URL_ref ''https://example.com/archive.zip'' None
     = Some \<lparr>href = ''https://example.com/archive.zip'', origin = ''https://example.com'',
             hostname = ''example.com'', pathname = ''/archive.zip''\<rparr>
   \<and> endsWith ''/archive.zip'' ''.zip''
   \<and> filterLinks URL_ref [''https://example.com/archive.zip''] ''https://example.com/start''
      ''example.com'' False
     = []"
  by code_simp

text \<open>
  C7. When a page is expanded, the queue gains entries only for filtered links that are not
  in \<^verbatim>\<open>visited\<close>, in order, and only while pages plus queue are below twice
  \<^verbatim>\<open>maxPages\<close>; so at every point of a crawl the pages held plus the queued entries
  created by expansion (those of depth above 0, the seed being the only entry of depth 0)
  do not exceed twice \<^verbatim>\<open>maxPages\<close>.
\<close>

theorem C7_soft_cap:
  "(queue s = (u, d) # rest \<and> u \<notin> visited s \<and> int d < maxDepth c
      \<and> scrapeUrl B (length (fetches s)) u (scrapeOptionsOf (options c)) = Inr r
      \<and> expandLinks rv U c (linksOf r) u = Some fl
    \<longrightarrow> queue (crawlStep rv U B c s)
          = rest @ take (nat (maxPages c * 2 - int (length (results s @ [r])) - int (length rest)))
                        (map (\<lambda>l. (l, d + 1)) (filter (\<lambda>l. l \<notin> insert u (visited s)) fl)))
   \<and> (0 \<le> maxPagesOf opts \<and> U su None = Some p
    \<longrightarrow> (\<forall>t \<in> set (crawlStates rv U B (envOf su opts (hostname p)) (initState su)).
           int (length (results t)) + int (length (filter (\<lambda>e. 0 < snd e) (queue t)))
             \<le> 2 * maxPagesOf opts))"
proof (intro conjI impI)
  assume "queue s = (u, d) # rest \<and> u \<notin> visited s \<and> int d < maxDepth c
      \<and> scrapeUrl B (length (fetches s)) u (scrapeOptionsOf (options c)) = Inr r
      \<and> expandLinks rv U c (linksOf r) u = Some fl"
  then show "queue (crawlStep rv U B c s)
          = rest @ take (nat (maxPages c * 2 - int (length (results s @ [r])) - int (length rest)))
                        (map (\<lambda>l. (l, d + 1)) (filter (\<lambda>l. l \<notin> insert u (visited s)) fl))"
    by (simp add: crawlStep_def enqueue_take)
next
  assume "0 \<le> maxPagesOf opts \<and> U su None = Some p"
  then have "0 \<le> maxPages (envOf su opts (hostname p))" by (simp add: envOf_def)
  from cap_states [OF this, of rv U B su]
  show "\<forall>t \<in> set (crawlStates rv U B (envOf su opts (hostname p)) (initState su)).
           int (length (results t)) + int (length (filter (\<lambda>e. 0 < snd e) (queue t)))
             \<le> 2 * maxPagesOf opts"
    by (simp add: envOf_def mult.commute)
qed

theorem C7_soft_cap_witness:
  "expandLinks Rev1 URL_ref (envOf ''http://a.io/'' (optsOf 1 1) ''a.io'') (linksOf rootPage) ''http://a.io/''
     = Some [''http://a.io/p'', ''http://a.io/q?x=1'', ''http://a.io/t'']
   \<and> queue (crawlStep Rev1 URL_ref siteA (envOf ''http://a.io/'' (optsOf 1 1) ''a.io'')
              (initState ''http://a.io/''))
       = [(''http://a.io/p'', 1)]
   \<and> length (results finalB) = 1 \<and> queue finalB = [(''http://a.io/p'', 1)]
   \<and> int (length (results finalB)) + int (length (filter (\<lambda>e. 0 < snd e) (queue finalB)))
       \<le> 2 * maxPagesOf (optsOf 1 1)"
proof -
  let ?c = "envOf ''http://a.io/'' (optsOf 1 1) ''a.io''"
  let ?s = "initState ''http://a.io/''"
  note inst = C7_soft_cap [where s = ?s and u = "''http://a.io/''" and d = 0 and rest = "[]"
      and c = ?c and B = siteA and r = rootPage and rv = Rev1 and U = URL_ref
      and fl = "[''http://a.io/p'', ''http://a.io/q?x=1'', ''http://a.io/t'']"
      and opts = "optsOf 1 1" and su = "''http://a.io/''"
      and p = "\<lparr>href = ''http://a.io/'', origin = ''http://a.io'', hostname = ''a.io'', pathname = ''/''\<rparr>"]
  have pre: "queue ?s = (''http://a.io/'', 0) # [] \<and> ''http://a.io/'' \<notin> visited ?s
             \<and> int 0 < maxDepth ?c
             \<and> scrapeUrl siteA (length (fetches ?s)) ''http://a.io/'' (scrapeOptionsOf (options ?c))
                 = Inr rootPage
             \<and> expandLinks Rev1 URL_ref ?c (linksOf rootPage) ''http://a.io/''
                 = Some [''http://a.io/p'', ''http://a.io/q?x=1'', ''http://a.io/t'']"
    using siteA_root [of 1 1] rootPage_expand
    by (simp add: initState_def envOf_def maxDepthOf_def optsOf_def)
  from inst pre have q: "queue (crawlStep Rev1 URL_ref siteA ?c ?s) = [(''http://a.io/p'', 1)]"
    by (simp add: initState_def envOf_def maxPagesOf_def optsOf_def)
  have mp: "0 \<le> maxPagesOf (optsOf 1 1)" by (simp add: maxPagesOf_def optsOf_def)
  from inst mp URL_ref_a_io
  have "\<forall>t \<in> set (crawlStates Rev1 URL_ref siteA ?c ?s).
           int (length (results t)) + int (length (filter (\<lambda>e. 0 < snd e) (queue t)))
             \<le> 2 * maxPagesOf (optsOf 1 1)"
    by simp
  with crawlLoop_in_states [of Rev1 URL_ref siteA ?c ?s]
  have b: "int (length (results finalB)) + int (length (filter (\<lambda>e. 0 < snd e) (queue finalB)))
             \<le> 2 * maxPagesOf (optsOf 1 1)"
    unfolding finalB_def by blast
  from rootPage_expand q finalB_eval b show ?thesis by blast
qed

text \<open>
  C8. \<^verbatim>\<open>linksDiscovered\<close> is the sum, over the successfully fetched pages whose depth is
  strictly below \<^verbatim>\<open>maxDepth\<close>, of the number of links that the scope filter returns for
  the page; and \<^verbatim>\<open>pagesScraped\<close> is the number of pages.
\<close>

theorem C8_stats:
  assumes "U su None = Some p" and "crawlRun rv U B su opts = Inr s"
  shows "crawlUrl rv U B su opts = Inr (resultOf s)
         \<and> linksDiscovered (stats (resultOf s))
             = sum_list (map (expansionSize rv U (envOf su opts (hostname p)))
                             (outcomes B opts (fetches s)))
         \<and> pagesScraped (stats (resultOf s)) = length (pages (resultOf s))"
proof -
  from assms crawlUrl_parsed [where U = U and su = su and rv = rv and B = B and opts = opts, OF assms(1)]
  have s: "s = crawlLoop rv U B (envOf su opts (hostname p)) (initState su)"
    and u: "crawlUrl rv U B su opts = Inr (resultOf s)" by simp_all
  from logInv_loop [where U = U and su = su and rv = rv and B = B and opts = opts, OF assms(1)]
  have "discovered s = sum_list (map (expansionSize rv U (envOf su opts (hostname p)))
                             (outcomes B opts (fetches s)))"
    by (simp add: logInv_def envOf_def s)
  with u show ?thesis by (simp add: resultOf_def)
qed

theorem C8_stats_witness:
  "crawlUrl Rev1 URL_ref siteA ''http://a.io/'' (optsOf 10 2) = Inr (resultOf finalA)
   \<and> linksDiscovered (stats (resultOf finalA))
       = sum_list (map (expansionSize Rev1 URL_ref (envOf ''http://a.io/'' (optsOf 10 2) ''a.io''))
                       (outcomes siteA (optsOf 10 2) (fetches finalA)))
   \<and> linksDiscovered (stats (resultOf finalA)) = 5
   \<and> pagesScraped (stats (resultOf finalA)) = length (pages (resultOf finalA))
   \<and> pagesScraped (stats (resultOf finalA)) = 4"
proof -
  have four: "pagesScraped (stats (resultOf finalA)) = 4"
    using finalA_count by (simp add: resultOf_def)
  have five: "linksDiscovered (stats (resultOf finalA)) = 5"
    using finalA_discovered by (simp add: resultOf_def)
  from C8_stats [where U = URL_ref and su = "''http://a.io/''", OF URL_ref_a_io runA] four five
  show ?thesis by simp
qed

text \<open>
  C9. With \<^verbatim>\<open>maxPages = 0\<close>, for every start URL that parses, \<^verbatim>\<open>crawlUrl\<close> performs no
  fetch and returns an empty page list with \<^verbatim>\<open>pagesScraped = 0\<close>: the loop exits with the
  state it started in.
\<close>

theorem C9_maxPages_zero:
  assumes "co_maxPages opts = Some 0" and "U su None = Some p"
  shows "crawlUrl rv U B su opts =
           Inr \<lparr>pages = [], stats = \<lparr>pagesScraped = 0, linksDiscovered = 0\<rparr>\<rparr>
         \<and> crawlRun rv U B su opts = Inr (initState su)
         \<and> fetches (initState su) = []"
proof -
  have "\<not> crawlGuard (envOf su opts (hostname p)) (initState su)"
    using assms(1) by (simp add: crawlGuard_def envOf_def maxPagesOf_def initState_def)
  then have "crawlLoop rv U B (envOf su opts (hostname p)) (initState su) = initState su"
    by (rule crawlLoop_stop)
  with assms(2) show ?thesis
    by (simp add: crawlUrl_def crawlRun_def resultOf_def initState_def)
qed

theorem C9_maxPages_zero_witness:
  "crawlUrl Rev1 URL_ref siteA ''http://a.io/'' (optsOf 0 2) =
           Inr \<lparr>pages = [], stats = \<lparr>pagesScraped = 0, linksDiscovered = 0\<rparr>\<rparr>
         \<and> crawlRun Rev1 URL_ref siteA ''http://a.io/'' (optsOf 0 2) = Inr (initState ''http://a.io/'')
         \<and> fetches (initState ''http://a.io/'') = []"
proof -
  have a: "co_maxPages (optsOf 0 2) = Some 0" by (simp add: optsOf_def)
  show ?thesis
    by (rule C9_maxPages_zero [where U = URL_ref and su = "''http://a.io/''", OF a URL_ref_a_io])
qed

text \<open>
  C10. In the second revision every URL that the scope filter returns is
  \<^verbatim>\<open>origin + pathname\<close> of a resolved link, with a slash at the end of the path removed;
  it contains neither \<^verbatim>\<open>?\<close> nor \<^verbatim>\<open>#\<close>, given that the URL class puts none into an
  origin or a path; the returned list has no duplicate; and two links that resolve to the
  same origin, host and path (they differ in query or fragment only) yield at most one
  returned URL.
\<close>

theorem C10_normalised_urls:
  "(x \<in> set (filterLinks2 U rawLinks currentUrl baseDomain allowSub)
     \<longrightarrow> (\<exists>h \<in> set rawLinks. \<exists>r obj. U h (Some currentUrl) = Some r \<and> U (href r) None = Some obj
             \<and> x = origin obj @ stripTrailingSlash (pathname obj)))
   \<and> ((\<forall>i b obj. U i b = Some obj \<longrightarrow>
          CHR ''?'' \<notin> set (origin obj) \<and> CHR ''?'' \<notin> set (pathname obj)
          \<and> CHR ''#'' \<notin> set (origin obj) \<and> CHR ''#'' \<notin> set (pathname obj))
       \<and> x \<in> set (filterLinks2 U rawLinks currentUrl baseDomain allowSub)
     \<longrightarrow> CHR ''?'' \<notin> set x \<and> CHR ''#'' \<notin> set x)
   \<and> distinct (filterLinks2 U rawLinks currentUrl baseDomain allowSub)
   \<and> (U h1 (Some currentUrl) = Some r1 \<and> U (href r1) None = Some o1
       \<and> U h2 (Some currentUrl) = Some r2 \<and> U (href r2) None = Some o2
       \<and> origin o1 = origin o2 \<and> hostname o1 = hostname o2 \<and> pathname o1 = pathname o2
     \<longrightarrow> length (filterLinks2 U [h1, h2] currentUrl baseDomain allowSub) \<le> 1)"
proof (intro conjI impI)
  assume "x \<in> set (filterLinks2 U rawLinks currentUrl baseDomain allowSub)"
  with fold_filterOne2_member [of x U currentUrl "stripWww baseDomain" allowSub rawLinks "[]"]
  show "\<exists>h \<in> set rawLinks. \<exists>r obj. U h (Some currentUrl) = Some r \<and> U (href r) None = Some obj
             \<and> x = origin obj @ stripTrailingSlash (pathname obj)"
    by (simp add: filterLinks2_def)
next
  assume h: "(\<forall>i b obj. U i b = Some obj \<longrightarrow>
          CHR ''?'' \<notin> set (origin obj) \<and> CHR ''?'' \<notin> set (pathname obj)
          \<and> CHR ''#'' \<notin> set (origin obj) \<and> CHR ''#'' \<notin> set (pathname obj))
       \<and> x \<in> set (filterLinks2 U rawLinks currentUrl baseDomain allowSub)"
  with fold_filterOne2_member [of x U currentUrl "stripWww baseDomain" allowSub rawLinks "[]"]
  obtain obj i b where "U i b = Some obj" and x: "x = origin obj @ stripTrailingSlash (pathname obj)"
    by (auto simp: filterLinks2_def)
  with h have "CHR ''?'' \<notin> set (origin obj) \<and> CHR ''?'' \<notin> set (pathname obj)
          \<and> CHR ''#'' \<notin> set (origin obj) \<and> CHR ''#'' \<notin> set (pathname obj)" by blast
  with set_stripTrailingSlash [of "pathname obj"]
  have "CHR ''?'' \<notin> set x \<and> CHR ''#'' \<notin> set x" unfolding x by auto
  then show "CHR ''?'' \<notin> set x" and "CHR ''#'' \<notin> set x" by simp_all
next
  show "distinct (filterLinks2 U rawLinks currentUrl baseDomain allowSub)"
    by (simp add: filterLinks2_def fold_filterOne2_distinct)
next
  assume "U h1 (Some currentUrl) = Some r1 \<and> U (href r1) None = Some o1
       \<and> U h2 (Some currentUrl) = Some r2 \<and> U (href r2) None = Some o2
       \<and> origin o1 = origin o2 \<and> hostname o1 = hostname o2 \<and> pathname o1 = pathname o2"
  then show "length (filterLinks2 U [h1, h2] currentUrl baseDomain allowSub) \<le> 1"
    by (simp add: filterLinks2_def filterOne2_def Let_def setAdd_def)
qed

theorem C10_normalised_urls_witness:
  "filterLinks2 URL_ref [''http://a.io/q?x=1'', ''http://a.io/q#top'', ''http://a.io/q/'']
     ''http://a.io/'' ''a.io'' False = [''http://a.io/q'']
   \<and> (\<exists>h \<in> set [''http://a.io/q?x=1'', ''http://a.io/q#top'', ''http://a.io/q/''].
        \<exists>r obj. URL_ref h (Some ''http://a.io/'') = Some r \<and> URL_ref (href r) None = Some obj
             \<and> ''http://a.io/q'' = origin obj @ stripTrailingSlash (pathname obj))
   \<and> CHR ''?'' \<notin> set ''http://a.io/q'' \<and> CHR ''#'' \<notin> set ''http://a.io/q''
   \<and> distinct (filterLinks2 URL_ref [''http://a.io/q?x=1'', ''http://a.io/q#top'', ''http://a.io/q/'']
                 ''http://a.io/'' ''a.io'' False)
   \<and> length (filterLinks2 URL_ref [''http://a.io/q?x=1'', ''http://a.io/q#top'']
                 ''http://a.io/'' ''a.io'' False) \<le> 1"
proof -
  let ?raw = "[''http://a.io/q?x=1'', ''http://a.io/q#top'', ''http://a.io/q/'']"
  note inst = C10_normalised_urls [where U = URL_ref and x = "''http://a.io/q''" and rawLinks = ?raw
      and currentUrl = "''http://a.io/''" and baseDomain = "''a.io''" and allowSub = False
      and ?h1.0 = "''http://a.io/q?x=1''" and ?h2.0 = "''http://a.io/q#top''"
      and ?r1.0 = "urlQ ''?x=1''" and ?o1.0 = "urlQ ''?x=1''"
      and ?r2.0 = "urlQ ''#top''" and ?o2.0 = "urlQ ''#top''"]
  have mem: "''http://a.io/q'' \<in> set (filterLinks2 URL_ref ?raw ''http://a.io/'' ''a.io'' False)"
    unfolding filter2_q by simp
  have same: "URL_ref ''http://a.io/q?x=1'' (Some ''http://a.io/'') = Some (urlQ ''?x=1'')
       \<and> URL_ref (href (urlQ ''?x=1'')) None = Some (urlQ ''?x=1'')
       \<and> URL_ref ''http://a.io/q#top'' (Some ''http://a.io/'') = Some (urlQ ''#top'')
       \<and> URL_ref (href (urlQ ''#top'')) None = Some (urlQ ''#top'')
       \<and> origin (urlQ ''?x=1'') = origin (urlQ ''#top'')
       \<and> hostname (urlQ ''?x=1'') = hostname (urlQ ''#top'')
       \<and> pathname (urlQ ''?x=1'') = pathname (urlQ ''#top'')"
    using URL_ref_q by (simp add: urlQ_def)
  from inst mem have a: "\<exists>h \<in> set ?raw.
        \<exists>r obj. URL_ref h (Some ''http://a.io/'') = Some r \<and> URL_ref (href r) None = Some obj
             \<and> ''http://a.io/q'' = origin obj @ stripTrailingSlash (pathname obj)"
    by blast
  from inst mem URL_ref_clean
  have b: "CHR ''?'' \<notin> set ''http://a.io/q'' \<and> CHR ''#'' \<notin> set ''http://a.io/q''"
    by blast
  from inst have c: "distinct (filterLinks2 URL_ref ?raw ''http://a.io/'' ''a.io'' False)"
    by blast
  from inst same
  have d: "length (filterLinks2 URL_ref [''http://a.io/q?x=1'', ''http://a.io/q#top'']
                 ''http://a.io/'' ''a.io'' False) \<le> 1"
    by blast
  from filter2_q a b c d show ?thesis by blast
qed

end
